theory Spec2Isabelle
  imports Complex_Main "HOL-Library.AList"
begin

section \<open>Shared data model\<close>

text \<open>
  Python exceptions, by the classes the handlers of the program tell apart:
  \<open>except requests.exceptions.RequestException\<close> (scrape_web_page) and
  \<open>except Exception\<close> (get_youtube_transcript, get_embeddings_with_retry,
  generate_embeddings). \<open>BaseException\<close> stands for the exceptions that are not
  subclasses of \<open>Exception\<close> (KeyboardInterrupt, SystemExit).
\<close>

datatype exn =
    RequestException string
  | IndexError
  | KeyError string
  | StopIteration
  | Exception string
  | BaseException string

fun is_Exception :: "exn \<Rightarrow> bool" where
  "is_Exception (BaseException m) = False"
| "is_Exception e = True"

fun is_RequestException :: "exn \<Rightarrow> bool" where
  "is_RequestException (RequestException m) = True"
| "is_RequestException e = False"

text \<open>
  JSON values as \<open>json.loads\<close> and \<open>json.dumps\<close> see them. A record of the
  line-delimited files is a Python dict: an association list in insertion order, so that
  \<open>item[k] = v\<close> is \<open>AList.update k v item\<close> (the value replaced in place when the key is
  there, the pair appended otherwise) and \<open>item[k]\<close> is \<open>map_of item k\<close>.
\<close>

datatype json = JStr string | JNum real | JArr "json list"

type_synonym item = "(string \<times> json) list"

section \<open>Collector (app/data_ingestion.py)\<close>

text \<open>
  What the Collector calls outside the program, as functions of the run's environment:
  \<open>netloc u\<close> is \<open>urlparse(u).netloc\<close>; \<open>get_transcript v\<close> is
  \<open>YouTubeTranscriptApi.get_transcript(v)\<close>, read as the list of the \<open>text\<close>
  entries; \<open>requests_get u\<close> is \<open>requests.get(u, timeout=10)\<close>; \<open>soup_text c\<close> is
  the text BeautifulSoup extracts from the content \<open>c\<close> (parse, drop script and style,
  join the stripped strings); \<open>split_text\<close> is the text splitter configured with
  CHUNK_SIZE and CHUNK_OVERLAP; \<open>uuid4 k\<close> is the string of the \<open>k\<close>-th identifier
  that \<open>uuid.uuid4()\<close> generates in the run. Each call either returns or raises.
\<close>

record response =
  status_code :: nat
  content :: string

record collector_env =
  netloc :: "string \<Rightarrow> string"
  get_transcript :: "string \<Rightarrow> exn + string list"
  requests_get :: "string \<Rightarrow> exn + response"
  soup_text :: "string \<Rightarrow> exn + string"
  split_text :: "string \<Rightarrow> string list"
  uuid4 :: "nat \<Rightarrow> string"

text \<open>
  \<open>s.split(sep)\<close> for a separator that is not empty: the pieces between the
  occurrences of \<open>sep\<close>, found from the left. \<open>acc\<close> is the piece being read,
  reversed.
\<close>

fun split_from :: "string \<Rightarrow> string \<Rightarrow> string \<Rightarrow> string list" where
  "split_from sep acc [] = [rev acc]"
| "split_from sep acc (c # cs) =
     (if sep \<noteq> [] \<and> take (length sep) (c # cs) = sep
      then rev acc # split_from sep [] (drop (length sep - 1) cs)
      else split_from sep (c # acc) cs)"

definition py_split :: "string \<Rightarrow> string \<Rightarrow> string list" where
  "py_split s sep = split_from sep [] s"

text \<open>\<open>sep.join(parts)\<close>.\<close>

fun py_join :: "string \<Rightarrow> string list \<Rightarrow> string" where
  "py_join sep [] = []"
| "py_join sep [p] = p"
| "py_join sep (p # q # ps) = p @ sep @ py_join sep (q # ps)"

text \<open>\<open>sub in s\<close> for strings.\<close>

fun contains :: "string \<Rightarrow> string \<Rightarrow> bool" where
  "contains sub [] = (sub = [])"
| "contains sub (c # cs) = (take (length sub) (c # cs) = sub \<or> contains sub cs)"

text \<open>
  The fetchers return \<open>Inr (Some text)\<close> for a text, \<open>Inr None\<close> for Python's
  \<open>None\<close>, and \<open>Inl e\<close> when the exception \<open>e\<close> leaves the function.
  get_youtube_transcript catches \<open>Exception\<close>: the IndexError of
  \<open>url.split("v=")[1]\<close> and what the transcript service raises.
\<close>

definition get_youtube_transcript :: "collector_env \<Rightarrow> string \<Rightarrow> exn + string option" where
  "get_youtube_transcript env url =
     (let parts = py_split url ''v='' in
      if length parts \<le> 1 then Inr None
      else (case get_transcript env (parts ! 1) of
              Inr transcript_list \<Rightarrow> Inr (Some (py_join '' '' transcript_list))
            | Inl e \<Rightarrow> if is_Exception e then Inr None else Inl e))"

text \<open>
  scrape_web_page catches \<open>requests.exceptions.RequestException\<close> only, around the
  request and the extraction of the text. The status code of the response is not read.
\<close>

definition scrape_web_page :: "collector_env \<Rightarrow> string \<Rightarrow> exn + string option" where
  "scrape_web_page env url =
     (case requests_get env url of
        Inl e \<Rightarrow> if is_RequestException e then Inr None else Inl e
      | Inr response \<Rightarrow>
          (case soup_text env (content response) of
             Inl e \<Rightarrow> if is_RequestException e then Inr None else Inl e
           | Inr text \<Rightarrow> Inr (Some text)))"

definition get_github_repo_content :: "collector_env \<Rightarrow> string \<Rightarrow> exn + string option" where
  "get_github_repo_content env url = Inr None"

text \<open>The dispatch on the domain in ingest_urls.\<close>

definition fetch_content :: "collector_env \<Rightarrow> string \<Rightarrow> string \<Rightarrow> exn + string option" where
  "fetch_content env url domain =
     (if contains ''youtube.com'' domain then get_youtube_transcript env url
      else if contains ''github.com'' domain then get_github_repo_content env url
      else scrape_web_page env url)"

text \<open>The dict written for one chunk, keys in the order of the source.\<close>

definition chunk_with_metadata :: "string \<Rightarrow> string \<Rightarrow> string \<Rightarrow> string \<Rightarrow> item" where
  "chunk_with_metadata i chunk url domain =
     [(''id'', JStr i), (''text'', JStr chunk), (''source'', JStr url), (''title'', JStr domain)]"

text \<open>
  The state of a run of the Collector: the records written to ingested_data.jsonl so far
  and the number of identifiers generated so far.
\<close>

record collect_world =
  written :: "item list"
  ids_used :: nat

text \<open>\<open>for chunk in chunks\<close>: one new identifier and one record per chunk.\<close>

fun write_chunks ::
  "collector_env \<Rightarrow> string \<Rightarrow> string \<Rightarrow> string list \<Rightarrow> collect_world \<Rightarrow> collect_world" where
  "write_chunks env url domain [] w = w"
| "write_chunks env url domain (chunk # chunks) w =
     write_chunks env url domain chunks
       (w\<lparr>written := written w @ [chunk_with_metadata (uuid4 env (ids_used w)) chunk url domain],
          ids_used := Suc (ids_used w)\<rparr>)"

text \<open>
  \<open>for url in urls\<close>. No handler surrounds the body: an exception that leaves a
  fetcher ends the run, the records written before it stay in the file. \<open>if content\<close>
  holds for a text that is not empty.
\<close>

fun ingest_loop ::
  "collector_env \<Rightarrow> string list \<Rightarrow> collect_world \<Rightarrow> exn option \<times> collect_world" where
  "ingest_loop env [] w = (None, w)"
| "ingest_loop env (url # urls) w =
     (let domain = netloc env url in
      case fetch_content env url domain of
        Inl e \<Rightarrow> (Some e, w)
      | Inr None \<Rightarrow> ingest_loop env urls w
      | Inr (Some text) \<Rightarrow>
          if text \<noteq> []
          then ingest_loop env urls (write_chunks env url domain (split_text env text) w)
          else ingest_loop env urls w)"

text \<open>
  ingest_urls opens the output file with mode \<open>"w"\<close>: whatever the file held before
  (\<open>old_file\<close>) is dropped and the run starts from the empty file.
\<close>

definition ingest_urls ::
  "collector_env \<Rightarrow> string list \<Rightarrow> item list \<Rightarrow> exn option \<times> collect_world" where
  "ingest_urls env urls old_file = ingest_loop env urls \<lparr>written = [], ids_used = 0\<rparr>"

subsection \<open>Specification-level functions of the Collector\<close>

text \<open>
  The chunks a URL contributes (none when its fetcher returns no content or an empty
  text), the (url, chunk) pairs of a list of URLs in the order of the list, and the
  records built from such pairs with the identifiers generated from number \<open>k\<close> on.
\<close>

definition url_chunks :: "collector_env \<Rightarrow> string \<Rightarrow> string list" where
  "url_chunks env url =
     (case fetch_content env url (netloc env url) of
        Inr (Some text) \<Rightarrow> if text \<noteq> [] then split_text env text else []
      | _ \<Rightarrow> [])"

definition planned :: "collector_env \<Rightarrow> string list \<Rightarrow> (string \<times> string) list" where
  "planned env urls = concat (map (\<lambda>u. map (Pair u) (url_chunks env u)) urls)"

fun numbered :: "collector_env \<Rightarrow> nat \<Rightarrow> (string \<times> string) list \<Rightarrow> item list" where
  "numbered env k [] = []"
| "numbered env k ((u, c) # ps) =
     chunk_with_metadata (uuid4 env k) c u (netloc env u) # numbered env (Suc k) ps"

section \<open>The text splitter\<close>

text \<open>
  Modelled from the spec: the text splitter (\<open>split_text\<close> of
  RecursiveCharacterTextSplitter), library code that is not under src/. The
  specification says: recursively split text into chunks of at most CHUNK_SIZE
  characters with CHUNK_OVERLAP characters shared between consecutive chunks, preferring
  to split on larger semantic boundaries (paragraph, sentence, word) before falling back
  to hard character cuts. \<open>last_break sep window\<close> is the end of the last occurrence
  of the boundary \<open>sep\<close> in the window, if there is one.
\<close>

definition last_break :: "string \<Rightarrow> string \<Rightarrow> nat option" where
  "last_break sep window =
     (case filter (\<lambda>n. sep \<noteq> [] \<and> length sep \<le> n \<and> take (length sep) (drop (n - length sep) window) = sep)
             (rev [0..<Suc (length window)]) of
        [] \<Rightarrow> None
      | n # ns \<Rightarrow> Some n)"

text \<open>
  Modelled from the spec: where the chunk that starts a text longer than \<open>chunk_size\<close>
  ends: after the last paragraph break in its first \<open>chunk_size\<close> characters, else
  after the last sentence end, else after the last space, else at \<open>chunk_size\<close>.
\<close>

definition cut_point :: "nat \<Rightarrow> string \<Rightarrow> nat" where
  "cut_point chunk_size text =
     (let window = take chunk_size text in
      case last_break [CHR 0x0A, CHR 0x0A] window of
        Some n \<Rightarrow> n
      | None \<Rightarrow>
          (case last_break ''. '' window of
             Some n \<Rightarrow> n
           | None \<Rightarrow> (case last_break '' '' window of Some n \<Rightarrow> n | None \<Rightarrow> chunk_size)))"

text \<open>
  Modelled from the spec: the chunks with the positions where they start in the text.
  The next chunk starts \<open>chunk_overlap\<close> characters before the end of the chunk,
  and at least one character after its start.
\<close>

fun split_spans :: "nat \<Rightarrow> nat \<Rightarrow> nat \<Rightarrow> string \<Rightarrow> (nat \<times> string) list" where
  "split_spans chunk_size chunk_overlap start text =
     (if length text \<le> chunk_size then (if text = [] then [] else [(start, text)])
      else (start, take (cut_point chunk_size text) text) #
           split_spans chunk_size chunk_overlap (start + max 1 (cut_point chunk_size text - chunk_overlap))
             (drop (max 1 (cut_point chunk_size text - chunk_overlap)) text))"

declare split_spans.simps [simp del]

text \<open>Modelled from the spec: the splitter configured with CHUNK_SIZE and CHUNK_OVERLAP.\<close>

definition spec_split_text :: "int \<Rightarrow> int \<Rightarrow> string \<Rightarrow> string list" where
  "spec_split_text CHUNK_SIZE CHUNK_OVERLAP text =
     map snd (split_spans (nat CHUNK_SIZE) (nat CHUNK_OVERLAP) 0 text)"

section \<open>Embedder (app/embedding.py)\<close>

text \<open>
  The embedding service is outside the program. \<open>model n texts\<close> is what
  \<open>model.get_embeddings(texts)\<close> answers when \<open>n\<close> calls were made before it in the run:
  either an exception or the list of the \<open>values\<close> of the embeddings. The index lets
  the service fail on one attempt and answer the next.
\<close>

type_synonym embedding_model = "nat \<Rightarrow> json list \<Rightarrow> exn + real list list"

text \<open>
  The state of a run of the Embedder: \<open>calls\<close> is the trace of the calls of
  \<open>model.get_embeddings\<close> (their arguments), \<open>sleeps\<close> the trace of \<open>time.sleep\<close>,
  \<open>requests\<close> the trace of the invocations of get_embeddings_with_retry (argument and
  outcome), \<open>outfile\<close> the records written to embedded_data.jsonl so far. Console
  output is not modelled.
\<close>

record embed_world =
  calls :: "json list list"
  sleeps :: "nat list"
  requests :: "(json list \<times> (exn + real list list)) list"
  outfile :: "item list"

text \<open>
  The loop \<open>for _ in range(5)\<close> of get_embeddings_with_retry, with the number of
  iterations left and the current delay. An exception that is not an \<open>Exception\<close>
  passes the handler.
\<close>

fun retry_loop ::
  "embedding_model \<Rightarrow> json list \<Rightarrow> nat \<Rightarrow> nat \<Rightarrow> embed_world
    \<Rightarrow> (exn + real list list) \<times> embed_world" where
  "retry_loop model texts 0 delay w =
     (Inl (Exception ''Failed to get embeddings after multiple retries.''), w)"
| "retry_loop model texts (Suc n) delay w =
     (let w1 = w\<lparr>calls := calls w @ [texts]\<rparr> in
      case model (length (calls w)) texts of
        Inr embeddings \<Rightarrow> (Inr embeddings, w1)
      | Inl e \<Rightarrow>
          if is_Exception e
          then retry_loop model texts n (delay * 2) (w1\<lparr>sleeps := sleeps w1 @ [delay]\<rparr>)
          else (Inl e, w1))"

definition get_embeddings_with_retry ::
  "embedding_model \<Rightarrow> json list \<Rightarrow> embed_world \<Rightarrow> (exn + real list list) \<times> embed_world" where
  "get_embeddings_with_retry model texts w =
     (case retry_loop model texts 5 1 w of
        (r, w') \<Rightarrow> (r, w'\<lparr>requests := requests w' @ [(texts, r)]\<rparr>))"

text \<open>\<open>[item["text"] for item in batch]\<close>: a record without the key raises KeyError.\<close>

fun batch_texts :: "item list \<Rightarrow> exn + json list" where
  "batch_texts [] = Inr []"
| "batch_texts (item # batch) =
     (case map_of item ''text'' of
        None \<Rightarrow> Inl (KeyError ''text'')
      | Some t \<Rightarrow> (case batch_texts batch of Inl e \<Rightarrow> Inl e | Inr ts \<Rightarrow> Inr (t # ts)))"

text \<open>
  \<open>for j, item in enumerate(batch): item["embedding"] = embeddings[j].values;
  outfile.write(json.dumps(item) + '\n')\<close>, from index \<open>j\<close> on. An answer shorter
  than the batch raises IndexError at the first missing index, after the records before
  it were written.
\<close>

definition set_embedding :: "real list \<Rightarrow> item \<Rightarrow> item" where
  "set_embedding vs item = AList.update ''embedding'' (JArr (map JNum vs)) item"

fun write_items ::
  "nat \<Rightarrow> item list \<Rightarrow> real list list \<Rightarrow> embed_world \<Rightarrow> exn option \<times> embed_world" where
  "write_items j [] embeddings w = (None, w)"
| "write_items j (item # rest) embeddings w =
     (if j < length embeddings
      then write_items (Suc j) rest embeddings
             (w\<lparr>outfile := outfile w @ [set_embedding (embeddings ! j) item]\<rparr>)
      else (Some IndexError, w))"

text \<open>
  One batch: the texts are collected outside the \<open>try\<close>, the request and the writes
  are inside it, and \<open>except Exception\<close> skips the batch. The result is the exception
  that leaves the block, if any.
\<close>

definition process_batch ::
  "embedding_model \<Rightarrow> item list \<Rightarrow> embed_world \<Rightarrow> exn option \<times> embed_world" where
  "process_batch model batch w =
     (case batch_texts batch of
        Inl e \<Rightarrow> (Some e, w)
      | Inr texts \<Rightarrow>
          (case get_embeddings_with_retry model texts w of
             (Inl e, w1) \<Rightarrow> (if is_Exception e then (None, w1) else (Some e, w1))
           | (Inr embeddings, w1) \<Rightarrow>
               (case write_items 0 batch embeddings w1 of
                  (Some e, w2) \<Rightarrow> (if is_Exception e then (None, w2) else (Some e, w2))
                | (None, w2) \<Rightarrow> (None, w2))))"

text \<open>
  The loop \<open>for line in infile\<close> over the parsed lines that are left, with the batch
  collected so far; at the end of the file the last, partial batch is processed.
  \<open>B\<close> is EMBEDDING_BATCH_SIZE, any integer of the environment.
\<close>

fun embed_lines ::
  "embedding_model \<Rightarrow> int \<Rightarrow> item list \<Rightarrow> item list \<Rightarrow> embed_world
    \<Rightarrow> exn option \<times> embed_world" where
  "embed_lines model B [] batch w =
     (if batch \<noteq> [] then process_batch model batch w else (None, w))"
| "embed_lines model B (item # infile) batch w =
     (let batch' = batch @ [item] in
      if int (length batch') \<ge> B
      then (case process_batch model batch' w of
              (Some e, w') \<Rightarrow> (Some e, w')
            | (None, w') \<Rightarrow> embed_lines model B infile [] w')
      else embed_lines model B infile batch' w)"

definition start_world :: embed_world where
  "start_world = \<lparr>calls = [], sleeps = [], requests = [], outfile = []\<rparr>"

text \<open>
  generate_embeddings on the parsed lines of ingested_data.jsonl; the output file is
  opened with mode \<open>'w'\<close>, so it starts empty.
\<close>

definition generate_embeddings ::
  "embedding_model \<Rightarrow> int \<Rightarrow> item list \<Rightarrow> exn option \<times> embed_world" where
  "generate_embeddings model B infile = embed_lines model B infile [] start_world"

subsection \<open>Specification-level functions of the Embedder\<close>

text \<open>
  The batching as the specification words it: consecutive groups of \<open>n\<close> records in
  file order, the last one shorter when the number of records is not a multiple of \<open>n\<close>.
  It is compared below with the loop of generate_embeddings.
\<close>

fun batches_of :: "nat \<Rightarrow> 'a list \<Rightarrow> 'a list list" where
  "batches_of n xs = (if n = 0 \<or> xs = [] then [] else take n xs # batches_of n (drop n xs))"

declare batches_of.simps [simp del]

text \<open>The batches processed one after the other, as the loop does once they are formed.\<close>

fun run_batches ::
  "embedding_model \<Rightarrow> item list list \<Rightarrow> embed_world \<Rightarrow> exn option \<times> embed_world" where
  "run_batches model [] w = (None, w)"
| "run_batches model (b # bs) w =
     (case process_batch model b w of
        (Some e, w') \<Rightarrow> (Some e, w')
      | (None, w') \<Rightarrow> run_batches model bs w')"

text \<open>
  What a batch adds to the output file, given the outcome of its request: nothing when
  the request failed, and each record with the vector at its index otherwise.
\<close>

definition batch_output :: "item list \<Rightarrow> exn + real list list \<Rightarrow> item list" where
  "batch_output batch r = (case r of Inl e \<Rightarrow> [] | Inr es \<Rightarrow> map2 set_embedding es batch)"

text \<open>
  With batches of \<open>n\<close> records and the trace \<open>rq\<close> of the requests, the input position
  \<open>p\<close> is written when request number \<open>p div n\<close> was answered and the answer has an
  entry at index \<open>p mod n\<close>; \<open>record_at\<close> is the record written for it.
\<close>

definition kept :: "(json list \<times> (exn + real list list)) list \<Rightarrow> nat \<Rightarrow> nat \<Rightarrow> bool" where
  "kept rq n p = (p div n < length rq \<and>
     (case snd (rq ! (p div n)) of Inl e \<Rightarrow> False | Inr es \<Rightarrow> p mod n < length es))"

definition record_at ::
  "(json list \<times> (exn + real list list)) list \<Rightarrow> nat \<Rightarrow> item list \<Rightarrow> nat \<Rightarrow> item" where
  "record_at rq n xs p = set_embedding (projr (snd (rq ! (p div n))) ! (p mod n)) (xs ! p)"

section \<open>Indexer (app/indexing.py)\<close>

text \<open>
  The configuration the module reads from the environment, and the resources of the
  index service as the program reads them: an index has a display name, a resource name
  and the list of its deployments, each naming the endpoint it is deployed to; an
  endpoint has a display name and a resource name.
\<close>

record indexer_config =
  LOCATION :: string
  GCS_BUCKET_NAME :: string
  GCS_UPLOAD_FOLDER :: string
  EMBEDDED_DATA_FILE :: string
  INDEX_DISPLAY_NAME :: string
  ENDPOINT_DISPLAY_NAME :: string
  EMBEDDING_DIMENSIONS :: int

record deployed_index_ref =
  deployed_index_id :: string
  index_endpoint :: string

record index_resource =
  index_display_name :: string
  index_resource_name :: string
  contents_delta_uri :: string
  dimensions :: int
  approximate_neighbors_count :: nat
  distance_measure_type :: string
  deployed_indexes :: "deployed_index_ref list"

record endpoint_resource =
  endpoint_display_name :: string
  endpoint_resource_name :: string
  public_endpoint_enabled :: bool
  deployments :: "(string \<times> string \<times> string \<times> nat \<times> nat) list"

text \<open>The calls that change the state of the services, as a trace.\<close>

datatype cloud_op =
    CreateBucket string string
  | Upload string string string
  | CreateIndex string
  | CreateEndpoint string
  | DeployIndex string string string

record cloud =
  indexes :: "index_resource list"
  endpoints :: "endpoint_resource list"
  buckets :: "string list"
  blobs :: "((string \<times> string) \<times> string) list"
  next_id :: nat
  oplog :: "cloud_op list"

text \<open>\<open>str(n)\<close> for a natural number.\<close>

fun str_nat :: "nat \<Rightarrow> string" where
  "str_nat n =
     (if n < 10 then [''0123456789'' ! n]
      else str_nat (n div 10) @ [''0123456789'' ! (n mod 10)])"

declare str_nat.simps [simp del]

text \<open>
  Modelled from the spec: the object storage service (section 6: bucket_exists,
  create_bucket, object_exists, upload), which is not under src/. \<open>get_bucket\<close> raises
  for a bucket that does not exist; an upload stores the content of the local file at
  the path.
\<close>

definition get_bucket :: "cloud \<Rightarrow> string \<Rightarrow> exn + string" where
  "get_bucket c bucket_name =
     (if bucket_name \<in> set (buckets c) then Inr bucket_name else Inl (Exception ''NotFound''))"

definition create_bucket :: "cloud \<Rightarrow> string \<Rightarrow> string \<Rightarrow> cloud" where
  "create_bucket c bucket_name location =
     c\<lparr>buckets := buckets c @ [bucket_name],
       oplog := oplog c @ [CreateBucket bucket_name location]\<rparr>"

definition blob_exists :: "cloud \<Rightarrow> string \<Rightarrow> string \<Rightarrow> bool" where
  "blob_exists c bucket_name blob_name = (map_of (blobs c) (bucket_name, blob_name) \<noteq> None)"

definition upload_from_filename :: "cloud \<Rightarrow> string \<Rightarrow> string \<Rightarrow> string \<Rightarrow> cloud" where
  "upload_from_filename c bucket_name blob_name file_content =
     c\<lparr>blobs := AList.update (bucket_name, blob_name) file_content (blobs c),
       oplog := oplog c @ [Upload bucket_name blob_name file_content]\<rparr>"

text \<open>
  Modelled from the spec: the index service (section 6: list_indexes, create_index,
  list_endpoints, create_endpoint, deploy), which is not under src/. A created resource
  gets a new resource name and is listed after the existing ones, an index without
  deployment; a deployment is added to the deployments of the index and of the endpoint.
\<close>

definition create_tree_ah_index ::
  "cloud \<Rightarrow> string \<Rightarrow> string \<Rightarrow> int \<Rightarrow> nat \<Rightarrow> string \<Rightarrow> index_resource \<times> cloud" where
  "create_tree_ah_index c display_name uri dims neighbors_count distance =
     (let ix = \<lparr>index_display_name = display_name,
                index_resource_name = ''indexes/'' @ str_nat (next_id c),
                contents_delta_uri = uri,
                dimensions = dims,
                approximate_neighbors_count = neighbors_count,
                distance_measure_type = distance,
                deployed_indexes = []\<rparr>
      in (ix, c\<lparr>indexes := indexes c @ [ix], next_id := Suc (next_id c),
                oplog := oplog c @ [CreateIndex display_name]\<rparr>))"

definition create_endpoint :: "cloud \<Rightarrow> string \<Rightarrow> bool \<Rightarrow> endpoint_resource \<times> cloud" where
  "create_endpoint c display_name public =
     (let ep = \<lparr>endpoint_display_name = display_name,
                endpoint_resource_name = ''indexEndpoints/'' @ str_nat (next_id c),
                public_endpoint_enabled = public,
                deployments = []\<rparr>
      in (ep, c\<lparr>endpoints := endpoints c @ [ep], next_id := Suc (next_id c),
                oplog := oplog c @ [CreateEndpoint display_name]\<rparr>))"

definition deploy_index ::
  "cloud \<Rightarrow> string \<Rightarrow> string \<Rightarrow> string \<Rightarrow> string \<Rightarrow> nat \<Rightarrow> nat \<Rightarrow> cloud" where
  "deploy_index c endpoint_name index_name deployed_id machine_type min_replicas max_replicas =
     c\<lparr>indexes :=
         map (\<lambda>ix. if index_resource_name ix = index_name
                    then ix\<lparr>deployed_indexes := deployed_indexes ix @
                           [\<lparr>deployed_index_id = deployed_id, index_endpoint = endpoint_name\<rparr>]\<rparr>
                    else ix) (indexes c),
       endpoints :=
         map (\<lambda>ep. if endpoint_resource_name ep = endpoint_name
                    then ep\<lparr>deployments := deployments ep @
                           [(deployed_id, index_name, machine_type, min_replicas, max_replicas)]\<rparr>
                    else ep) (endpoints c),
       oplog := oplog c @ [DeployIndex index_name endpoint_name deployed_id]\<rparr>"

text \<open>\<open>os.path.basename\<close> and \<open>os.path.join\<close> of two parts (POSIX).\<close>

definition basename :: "string \<Rightarrow> string" where
  "basename p = rev (takeWhile (\<lambda>c. c \<noteq> CHR ''/'') (rev p))"

definition path_join :: "string \<Rightarrow> string \<Rightarrow> string" where
  "path_join a b =
     (if b \<noteq> [] \<and> hd b = CHR ''/'' then b
      else if a = [] \<or> last a = CHR ''/'' then a @ b
      else a @ ''/'' @ b)"

text \<open>
  upload_data_to_gcs: the bucket is created when \<open>get_bucket\<close> raises; the file is
  uploaded unless an object exists at the destination. \<open>file_content\<close> is the content
  of the local file.
\<close>

definition upload_data_to_gcs ::
  "indexer_config \<Rightarrow> string \<Rightarrow> string \<Rightarrow> string \<Rightarrow> string \<Rightarrow> cloud \<Rightarrow> string \<times> cloud" where
  "upload_data_to_gcs cfg source_file file_content bucket_name destination_folder c =
     (let c1 = (case get_bucket c bucket_name of
                  Inr bucket \<Rightarrow> c
                | Inl e \<Rightarrow> create_bucket c bucket_name (LOCATION cfg));
          destination_blob_name = path_join destination_folder (basename source_file);
          c2 = (if blob_exists c1 bucket_name destination_blob_name then c1
                else upload_from_filename c1 bucket_name destination_blob_name file_content)
      in (''gs://'' @ bucket_name @ ''/'' @ destination_blob_name, c2))"

text \<open>
  create_and_deploy_index, with the time of the call in seconds; it returns the resource
  name of the endpoint. The two loops with \<open>break\<close> find the first resource with the
  display name.
\<close>

definition create_and_deploy_index ::
  "indexer_config \<Rightarrow> nat \<Rightarrow> string \<Rightarrow> cloud \<Rightarrow> string \<times> cloud" where
  "create_and_deploy_index cfg now gcs_uri c =
     (let found = List.find (\<lambda>ix. index_display_name ix = INDEX_DISPLAY_NAME cfg) (indexes c) in
      case (case found of
              Some ix \<Rightarrow> if deployed_indexes ix \<noteq> [] then Some (index_endpoint (hd (deployed_indexes ix))) else None
            | None \<Rightarrow> None) of
        Some deployed_endpoint \<Rightarrow> (deployed_endpoint, c)
      | None \<Rightarrow>
          (let (my_index, c1) =
                 (case found of
                    Some ix \<Rightarrow> (ix, c)
                  | None \<Rightarrow> create_tree_ah_index c (INDEX_DISPLAY_NAME cfg) gcs_uri
                              (EMBEDDING_DIMENSIONS cfg) 150 ''DOT_PRODUCT_DISTANCE'');
               (my_endpoint, c2) =
                 (case List.find (\<lambda>ep. endpoint_display_name ep = ENDPOINT_DISPLAY_NAME cfg)
                         (endpoints c1) of
                    Some ep \<Rightarrow> (ep, c1)
                  | None \<Rightarrow> create_endpoint c1 (ENDPOINT_DISPLAY_NAME cfg) True);
               deployed_id = ''deployed_'' @ filter (\<lambda>ch. ch \<noteq> CHR ''_'') (INDEX_DISPLAY_NAME cfg)
                               @ ''_'' @ str_nat now
           in (endpoint_resource_name my_endpoint,
               deploy_index c2 (endpoint_resource_name my_endpoint) (index_resource_name my_index)
                 deployed_id ''n1-standard-16'' 1 2)))"

text \<open>
  The main block: nothing is done when the input file is missing (\<open>local_file = None\<close>);
  otherwise the file is uploaded and the index created and deployed.
\<close>

definition indexer_main ::
  "indexer_config \<Rightarrow> nat \<Rightarrow> string option \<Rightarrow> cloud \<Rightarrow> string option \<times> cloud" where
  "indexer_main cfg now local_file c =
     (case local_file of
        None \<Rightarrow> (None, c)
      | Some file_content \<Rightarrow>
          (let (gcs_data_path, c1) =
                 upload_data_to_gcs cfg (EMBEDDED_DATA_FILE cfg) file_content
                   (GCS_BUCKET_NAME cfg) (GCS_UPLOAD_FOLDER cfg) c;
               (index_endpoint_name, c2) = create_and_deploy_index cfg now gcs_data_path c1
           in (Some index_endpoint_name, c2)))"

text \<open>The calls of a trace that create an index, and those that create an endpoint.\<close>

fun is_CreateIndex :: "cloud_op \<Rightarrow> bool" where
  "is_CreateIndex (CreateIndex n) = True"
| "is_CreateIndex op = False"

fun is_CreateEndpoint :: "cloud_op \<Rightarrow> bool" where
  "is_CreateEndpoint (CreateEndpoint n) = True"
| "is_CreateEndpoint op = False"

section \<open>Retrieval tool (app/agent.py, VectorSearchTool)\<close>

text \<open>
  The configuration of the tool, the request it builds and the response it reads: the
  response is the list \<open>nearest_neighbors\<close> of result sets, one per query of the
  request, each the list of its neighbors; a neighbor carries the name/value pairs
  \<open>metadata.strings\<close>.
\<close>

record agent_config =
  PROJECT_ID :: string
  GOOGLE_CLOUD_LOCATION :: string
  ENDPOINT_ID :: string
  DEPLOYED_INDEX_ID :: string






definition endpoint_name :: "agent_config \<Rightarrow> string" where
  "endpoint_name cfg =
     ''projects/'' @ PROJECT_ID cfg @ ''/locations/'' @ GOOGLE_CLOUD_LOCATION cfg
       @ ''/indexEndpoints/'' @ ENDPOINT_ID cfg"







subsection \<open>Specification-level functions of the retrieval tool\<close>



section \<open>Example inputs\<close>

text \<open>
  Seven chunk records of one source, an embedding service that answers its first call
  only, and one that never answers.
\<close>

definition seven_records :: "item list" where
  "seven_records =
     map (\<lambda>t. chunk_with_metadata (''id-'' @ t) t ''https://example.com/a'' ''example.com'')
       [''a'', ''b'', ''c'', ''d'', ''e'', ''f'', ''g'']"

definition first_call_only :: embedding_model where
  "first_call_only n texts =
     (if n = 0 then Inr (map (\<lambda>t. [1, 0]) texts) else Inl (Exception ''quota exceeded''))"

definition never_answers :: embedding_model where
  "never_answers n texts = Inl (Exception ''quota exceeded'')"

text \<open>
  A service that fails on every request that carries the text \<open>d\<close> and answers any
  other with one vector per text: the number of the call and the index of the text.
\<close>

definition indexed_model :: embedding_model where
  "indexed_model n texts =
     (if JStr ''d'' \<in> set texts then Inl (Exception ''quota exceeded'')
      else Inr (map (\<lambda>j. [real n, real j]) [0..<length texts]))"

text \<open>
  An environment of the Collector: the domain of an https URL, a transcript service that
  fails, a site that is down, a page the parser rejects, pages that answer 404 with an
  error page, a splitter that returns the text as one chunk, and identifiers
  \<open>u\<close>, \<open>uu\<close>, ... The second environment serves a page of 120 characters and
  splits with the splitter above, CHUNK_SIZE 50 and CHUNK_OVERLAP 10.
\<close>

definition example_netloc :: "string \<Rightarrow> string" where
  "example_netloc u = takeWhile (\<lambda>c. c \<noteq> CHR ''/'') (drop 8 u)"

definition example_env :: collector_env where
  "example_env =
     \<lparr>netloc = example_netloc,
      get_transcript = (\<lambda>v. Inl (Exception ''TranscriptsDisabled'')),
      requests_get = (\<lambda>u. if u = ''https://down.example/x'' then Inl (RequestException ''ConnectTimeout'')
                           else if u = ''https://example.com/bad'' then Inr \<lparr>status_code = 200, content = ''<bad''\<rparr>
                           else Inr \<lparr>status_code = 404, content = ''<h1>Not Found</h1>''\<rparr>),
      soup_text = (\<lambda>c. if c = ''<bad'' then Inl (Exception ''ParserRejectedMarkup'') else Inr ''Not Found''),
      split_text = (\<lambda>t. [t]),
      uuid4 = (\<lambda>k. replicate (Suc k) CHR ''u'')\<rparr>"

definition long_page_env :: collector_env where
  "long_page_env =
     example_env\<lparr>soup_text := (\<lambda>c. Inr (replicate 120 CHR ''x'')),
                 split_text := spec_split_text 50 10\<rparr>"

text \<open>
  A configuration of the Indexer, a project without any resource, and the state of the
  services after the Indexer has run there once, at second 5, on a file with the content
  \<open>records\<close>.
\<close>

definition example_indexer_config :: indexer_config where
  "example_indexer_config =
     \<lparr>LOCATION = ''europe-west4'',
      GCS_BUCKET_NAME = ''data'',
      GCS_UPLOAD_FOLDER = ''chunks'',
      EMBEDDED_DATA_FILE = ''embedded_data.jsonl'',
      INDEX_DISPLAY_NAME = ''my_rag_index'',
      ENDPOINT_DISPLAY_NAME = ''my_rag_endpoint'',
      EMBEDDING_DIMENSIONS = 768\<rparr>"

definition empty_cloud :: cloud where
  "empty_cloud = \<lparr>indexes = [], endpoints = [], buckets = [], blobs = [], next_id = 0, oplog = []\<rparr>"

definition cloud_after_first_run :: cloud where
  "cloud_after_first_run =
     \<lparr>indexes = [\<lparr>index_display_name = ''my_rag_index'',
                  index_resource_name = ''indexes/0'',
                  contents_delta_uri = ''gs://data/chunks/embedded_data.jsonl'',
                  dimensions = 768,
                  approximate_neighbors_count = 150,
                  distance_measure_type = ''DOT_PRODUCT_DISTANCE'',
                  deployed_indexes = [\<lparr>deployed_index_id = ''deployed_myragindex_5'',
                                       index_endpoint = ''indexEndpoints/1''\<rparr>]\<rparr>],
      endpoints = [\<lparr>endpoint_display_name = ''my_rag_endpoint'',
                    endpoint_resource_name = ''indexEndpoints/1'',
                    public_endpoint_enabled = True,
                    deployments = [(''deployed_myragindex_5'', ''indexes/0'', ''n1-standard-16'', 1, 2)]\<rparr>],
      buckets = [''data''],
      blobs = [((''data'', ''chunks/embedded_data.jsonl''), ''records'')],
      next_id = 2,
      oplog = [CreateBucket ''data'' ''europe-west4'',
               Upload ''data'' ''chunks/embedded_data.jsonl'' ''records'',
               CreateIndex ''my_rag_index'',
               CreateEndpoint ''my_rag_endpoint'',
               DeployIndex ''indexes/0'' ''indexEndpoints/1'' ''deployed_myragindex_5'']\<rparr>"






section \<open>Properties of the Collector\<close>

lemma numbered_append:
  "numbered env k (ps @ qs) = numbered env k ps @ numbered env (k + length ps) qs"
proof (induction ps arbitrary: k)
  case Nil
  show ?case by simp
next
  case (Cons p ps)
  obtain u c where p: "p = (u, c)" by (cases p)
  show ?case using Cons [of "Suc k"] by (simp add: p)
qed

lemma write_chunks_records:
  "written (write_chunks env url (netloc env url) chunks w) =
     written w @ numbered env (ids_used w) (map (Pair url) chunks) \<and>
   ids_used (write_chunks env url (netloc env url) chunks w) = ids_used w + length chunks"
proof (induction chunks arbitrary: w)
  case Nil
  show ?case by simp
next
  case (Cons c cs)
  show ?case using Cons by simp
qed

lemma planned_Nil [simp]: "planned env [] = []"
  by (simp add: planned_def)

lemma planned_Cons: "planned env (u # us) = map (Pair u) (url_chunks env u) @ planned env us"
  by (simp add: planned_def)

lemma ingest_loop_step:
  "fetch_content env url (netloc env url) = Inr c \<Longrightarrow>
   ingest_loop env (url # urls) w =
     ingest_loop env urls (write_chunks env url (netloc env url) (url_chunks env url) w)"
  by (cases c) (simp_all add: url_chunks_def)

lemma ingest_loop_abort:
  "fetch_content env url (netloc env url) = Inl e \<Longrightarrow> ingest_loop env (url # urls) w = (Some e, w)"
  by simp

lemma ingest_loop_records:
  "ingest_loop env urls w = (res, w') \<Longrightarrow>
   \<exists>k\<le>length urls.
      (res = None \<longrightarrow> k = length urls) \<and>
      (\<forall>e. res = Some e \<longrightarrow> k < length urls \<and>
             fetch_content env (urls ! k) (netloc env (urls ! k)) = Inl e) \<and>
      written w' = written w @ numbered env (ids_used w) (planned env (take k urls)) \<and>
      ids_used w' = ids_used w + length (planned env (take k urls))"
proof (induction urls arbitrary: w)
  case Nil
  then show ?case by simp
next
  case (Cons url urls)
  show ?case
  proof (cases "fetch_content env url (netloc env url)")
    case (Inl e)
    with Cons.prems have "res = Some e" "w' = w" by simp_all
    with Inl show ?thesis by (intro exI [of _ 0]) simp
  next
    case (Inr c)
    let ?w1 = "write_chunks env url (netloc env url) (url_chunks env url) w"
    from Cons.prems ingest_loop_step [OF Inr] have "ingest_loop env urls ?w1 = (res, w')" by simp
    from Cons.IH [OF this] obtain k where k: "k \<le> length urls"
      "res = None \<longrightarrow> k = length urls"
      "\<forall>e. res = Some e \<longrightarrow> k < length urls \<and>
             fetch_content env (urls ! k) (netloc env (urls ! k)) = Inl e"
      "written w' = written ?w1 @ numbered env (ids_used ?w1) (planned env (take k urls))"
      "ids_used w' = ids_used ?w1 + length (planned env (take k urls))"
      by blast
    note wc = write_chunks_records [of env url "url_chunks env url" w]
    have "written w' = written w @ numbered env (ids_used w) (planned env (take (Suc k) (url # urls)))"
      using k(4) wc by (simp add: planned_Cons numbered_append)
    moreover have "ids_used w' = ids_used w + length (planned env (take (Suc k) (url # urls)))"
      using k(5) wc by (simp add: planned_Cons)
    ultimately show ?thesis using k(1,2,3) by (intro exI [of _ "Suc k"]) simp
  qed
qed

lemma ids_numbered:
  "map (\<lambda>r. map_of r ''id'') (numbered env k ps) =
   map (\<lambda>i. Some (JStr (uuid4 env i))) [k..<k + length ps]"
proof (induction ps arbitrary: k)
  case Nil
  show ?case by simp
next
  case (Cons p ps)
  obtain u c where p: "p = (u, c)" by (cases p)
  have "[k..<k + length (p # ps)] = k # [Suc k..<Suc k + length ps]"
    by (simp add: upt_conv_Cons del: upt_Suc)
  then show ?case using Cons [of "Suc k"] by (simp add: p chunk_with_metadata_def del: upt_Suc)
qed

lemma sources_numbered:
  "map (\<lambda>r. (map_of r ''source'', map_of r ''title'')) (numbered env k ps) =
   map (\<lambda>(u, c). (Some (JStr u), Some (JStr (netloc env u)))) ps"
proof (induction ps arbitrary: k)
  case Nil
  show ?case by simp
next
  case (Cons p ps)
  obtain u c where p: "p = (u, c)" by (cases p)
  show ?case using Cons [of "Suc k"] by (simp add: p chunk_with_metadata_def)
qed

lemma planned_urls: "(u, c) \<in> set (planned env urls) \<Longrightarrow> u \<in> set urls"
  by (auto simp: planned_def)

lemma last_break_le: "last_break sep window = Some n \<Longrightarrow> n \<le> length window"
proof -
  assume a: "last_break sep window = Some n"
  let ?f = "filter (\<lambda>n. sep \<noteq> [] \<and> length sep \<le> n \<and> take (length sep) (drop (n - length sep) window) = sep)
             (rev [0..<Suc (length window)])"
  from a obtain ns where "?f = n # ns" by (auto simp: last_break_def split: list.splits)
  then have "n \<in> set ?f" by simp
  then have "n \<in> set (rev [0..<Suc (length window)])" by (rule filter_is_subset [THEN subsetD])
  then show ?thesis by auto
qed

lemma cut_point_le: "cut_point chunk_size text \<le> chunk_size"
proof -
  have "length (take chunk_size text) \<le> chunk_size" by simp
  with last_break_le [of _ "take chunk_size text"] show ?thesis
    by (auto simp: cut_point_def Let_def split: option.splits intro: order_trans)
qed

lemma split_spans_hd:
  "split_spans chunk_size chunk_overlap start text = (s, c) # rest \<Longrightarrow> s = start"
  by (subst (asm) split_spans.simps) (auto split: if_splits)

lemma split_spans_sound:
  "(s, c) \<in> set (split_spans chunk_size chunk_overlap start text) \<Longrightarrow>
   start \<le> s \<and> length c \<le> chunk_size \<and> c = take (length c) (drop (s - start) text)"
proof (induction chunk_size chunk_overlap start "text" arbitrary: s c rule: split_spans.induct)
  case (1 chunk_size chunk_overlap start t)
  show ?case
  proof (cases "length t \<le> chunk_size")
    case True
    with "1.prems" show ?thesis
      by (subst (asm) split_spans.simps) (auto split: if_splits)
  next
    case False
    let ?cut = "cut_point chunk_size t"
    let ?step = "max 1 (?cut - chunk_overlap)"
    from "1.prems" False have
      "(s, c) = (start, take ?cut t) \<or>
       (s, c) \<in> set (split_spans chunk_size chunk_overlap (start + ?step) (drop ?step t))"
      by (subst (asm) split_spans.simps) simp
    then show ?thesis
    proof
      assume "(s, c) = (start, take ?cut t)"
      then have sc: "s = start" "c = take ?cut t" by simp_all
      have "length c \<le> chunk_size" using cut_point_le [of chunk_size t] by (simp add: sc)
      moreover have "c = take (length c) (drop (s - start) t)"
        by (simp add: sc min_def)
      ultimately show ?thesis by (simp add: sc)
    next
      assume "(s, c) \<in> set (split_spans chunk_size chunk_overlap (start + ?step) (drop ?step t))"
      from "1.IH" [OF False this]
      have ih: "start + ?step \<le> s" "length c \<le> chunk_size"
        "c = take (length c) (drop (s - (start + ?step)) (drop ?step t))" by blast+
      have e: "s - (start + ?step) + ?step = s - start" using ih(1) by simp
      have "drop (s - (start + ?step)) (drop ?step t) = drop (s - (start + ?step) + ?step) t"
        by (rule drop_drop)
      then have d: "drop (s - (start + ?step)) (drop ?step t) = drop (s - start) t"
        by (simp only: e)
      have "start \<le> s" using ih(1) by simp
      moreover have "c = take (length c) (drop (s - start) t)" using ih(3) by (simp only: d)
      ultimately show ?thesis using ih(2) by blast
    qed
  qed
qed

lemma split_spans_successive:
  "successively (\<lambda>(s1, c1) (s2, c2). s1 < s2 \<and> s1 + length c1 \<le> s2 + chunk_overlap)
     (split_spans chunk_size chunk_overlap start text)"
proof (induction chunk_size chunk_overlap start "text" rule: split_spans.induct)
  case (1 chunk_size chunk_overlap start t)
  show ?case
  proof (cases "length t \<le> chunk_size")
    case True
    then show ?thesis by (subst split_spans.simps) simp
  next
    case False
    let ?cut = "cut_point chunk_size t"
    let ?step = "max 1 (?cut - chunk_overlap)"
    let ?rest = "split_spans chunk_size chunk_overlap (start + ?step) (drop ?step t)"
    have eq: "split_spans chunk_size chunk_overlap start t = (start, take ?cut t) # ?rest"
      using False by (subst split_spans.simps) simp
    have ih: "successively (\<lambda>(s1, c1) (s2, c2). s1 < s2 \<and> s1 + length c1 \<le> s2 + chunk_overlap) ?rest"
      using "1.IH" [OF False] .
    show ?thesis
    proof (cases ?rest)
      case Nil
      then show ?thesis by (simp add: eq)
    next
      case (Cons p ps)
      obtain s2 c2 where p: "p = (s2, c2)" by (cases p)
      from Cons p split_spans_hd have s2: "s2 = start + ?step" by blast
      have "length (take ?cut t) \<le> ?cut" by simp
      then have "start + length (take ?cut t) \<le> s2 + chunk_overlap" unfolding s2 by linarith
      moreover have "start < s2" unfolding s2 by simp
      ultimately show ?thesis using ih Cons p by (simp add: eq)
    qed
  qed
qed

lemma texts_numbered:
  "map (\<lambda>r. map_of r ''text'') (numbered env k ps) = map (\<lambda>(u, c). Some (JStr c)) ps"
proof (induction ps arbitrary: k)
  case Nil
  show ?case by simp
next
  case (Cons p ps)
  obtain u c where p: "p = (u, c)" by (cases p)
  show ?case using Cons [of "Suc k"] by (simp add: p chunk_with_metadata_def)
qed

lemma planned_chunks:
  "(u, c) \<in> set (planned env urls) \<Longrightarrow> \<exists>text. c \<in> set (split_text env text)"
  by (auto simp: planned_def url_chunks_def split: sum.splits option.splits if_splits)

lemma spans120:
  "split_spans 50 10 0 (replicate 120 CHR ''x'') =
     [(0, replicate 50 CHR ''x''), (40, replicate 50 CHR ''x''), (80, replicate 40 CHR ''x'')]"
  by code_simp

lemma example_netloc_a [simp]:
  "example_netloc ''https://example.com/a'' = ''example.com''"
  "example_netloc ''https://example.com/b'' = ''example.com''"
  "example_netloc ''https://example.com/bad'' = ''example.com''"
  "example_netloc ''https://down.example/x'' = ''down.example''"
  "example_netloc ''https://www.youtube.com/watch?v=8rlNdKywldQ'' = ''www.youtube.com''"
  by (simp_all add: example_netloc_def)

lemma example_run:
  "ingest_urls example_env
     [''https://down.example/x'', ''https://www.youtube.com/watch?v=8rlNdKywldQ'',
      ''https://example.com/a'', ''https://example.com/b''] old_file =
   (None,
    \<lparr>written = [chunk_with_metadata ''u'' ''Not Found'' ''https://example.com/a'' ''example.com'',
                chunk_with_metadata ''uu'' ''Not Found'' ''https://example.com/b'' ''example.com''],
     ids_used = 2\<rparr>)"
  by (simp add: ingest_urls_def example_env_def fetch_content_def scrape_web_page_def
      get_youtube_transcript_def py_split_def Let_def)

lemma long_page_run:
  "ingest_urls long_page_env [''https://example.com/a''] old_file =
   (None,
    \<lparr>written = [chunk_with_metadata ''u'' (replicate 50 CHR ''x'') ''https://example.com/a'' ''example.com'',
                chunk_with_metadata ''uu'' (replicate 50 CHR ''x'') ''https://example.com/a'' ''example.com'',
                chunk_with_metadata ''uuu'' (replicate 40 CHR ''x'') ''https://example.com/a'' ''example.com''],
     ids_used = 3\<rparr>)"
  by (simp add: ingest_urls_def long_page_env_def example_env_def fetch_content_def
      scrape_web_page_def spec_split_text_def spans120 Let_def)

lemma example_uuid4_inj: "inj (uuid4 example_env)"
proof (rule injI)
  fix x y assume "uuid4 example_env x = uuid4 example_env y"
  then have "replicate (Suc x) CHR ''u'' = replicate (Suc y) CHR ''u''"
    by (simp add: example_env_def)
  then have "length (replicate (Suc x) CHR ''u'') = length (replicate (Suc y) CHR ''u'')"
    by (rule arg_cong)
  then show "x = y" by simp
qed

text \<open>
  C2 as stated fails: an exception of another class raised in scrape_web_page (here the
  parser rejecting the page) leaves the fetcher and ends the run; the URL after it, which
  alone yields a record, is not processed.
\<close>

theorem unparsable_page_aborts_run:
  "scrape_web_page example_env ''https://example.com/bad'' = Inl (Exception ''ParserRejectedMarkup'') \<and>
   ingest_urls example_env [''https://example.com/bad'', ''https://example.com/a''] [] =
     (Some (Exception ''ParserRejectedMarkup''), \<lparr>written = [], ids_used = 0\<rparr>) \<and>
   ingest_urls example_env [''https://example.com/a''] [] =
     (None, \<lparr>written = [chunk_with_metadata ''u'' ''Not Found'' ''https://example.com/a'' ''example.com''],
             ids_used = 1\<rparr>)"
  by (simp add: ingest_urls_def example_env_def fetch_content_def scrape_web_page_def Let_def)

text \<open>
  C2, as amended. get_youtube_transcript catches every exception of class
  \<open>Exception\<close> raised while it gets the transcript (a URL without \<open>v=\<close>, a
  failure of the transcript service), and scrape_web_page catches every
  \<open>requests.exceptions.RequestException\<close> raised by the request or while the text
  is extracted; get_github_repo_content raises nothing. In each case the fetcher returns
  no content, and a URL without content leaves the output as it is while ingest_urls goes
  on with the next URL.
\<close>

theorem fetch_failures_caught:
  "((length (py_split url ''v='') \<le> 1 \<or>
     (\<exists>e. get_transcript env (py_split url ''v='' ! 1) = Inl e \<and> is_Exception e))
      \<longrightarrow> get_youtube_transcript env url = Inr None) \<and>
   ((\<exists>e. is_RequestException e \<and>
         (requests_get env url = Inl e \<or>
          (\<exists>r. requests_get env url = Inr r \<and> soup_text env (content r) = Inl e)))
      \<longrightarrow> scrape_web_page env url = Inr None) \<and>
   get_github_repo_content env url = Inr None \<and>
   (fetch_content env url (netloc env url) = Inr None
      \<longrightarrow> ingest_loop env (url # urls) w = ingest_loop env urls w)"
  by (auto simp: get_youtube_transcript_def scrape_web_page_def get_github_repo_content_def Let_def)

text \<open>A video without transcript and a site that is down, in the example environment.\<close>

theorem fetch_failures_caught_witness:
  "get_youtube_transcript example_env ''https://www.youtube.com/watch?v=8rlNdKywldQ'' = Inr None \<and>
   scrape_web_page example_env ''https://down.example/x'' = Inr None \<and>
   ingest_loop example_env [''https://down.example/x'', ''https://example.com/a'']
       \<lparr>written = [], ids_used = 0\<rparr> =
     ingest_loop example_env [''https://example.com/a''] \<lparr>written = [], ids_used = 0\<rparr>"
proof -
  let ?yt = "''https://www.youtube.com/watch?v=8rlNdKywldQ''"
  let ?down = "''https://down.example/x''"
  have yt: "length (py_split ?yt ''v='') \<le> 1 \<or>
     (\<exists>e. get_transcript example_env (py_split ?yt ''v='' ! 1) = Inl e \<and> is_Exception e)"
    by (simp add: example_env_def)
  have down: "\<exists>e. is_RequestException e \<and>
         (requests_get example_env ?down = Inl e \<or>
          (\<exists>r. requests_get example_env ?down = Inr r \<and> soup_text example_env (content r) = Inl e))"
    by (simp add: example_env_def)
  from fetch_failures_caught [of ?yt example_env] yt
  have a: "get_youtube_transcript example_env ?yt = Inr None" by blast
  note t = fetch_failures_caught [of ?down example_env "[''https://example.com/a'']"
             "\<lparr>written = [], ids_used = 0\<rparr>"]
  from t down have b: "scrape_web_page example_env ?down = Inr None" by blast
  then have "fetch_content example_env ?down (netloc example_env ?down) = Inr None"
    by (simp add: fetch_content_def example_env_def)
  with t have c: "ingest_loop example_env [?down, ''https://example.com/a'']
       \<lparr>written = [], ids_used = 0\<rparr> =
     ingest_loop example_env [''https://example.com/a''] \<lparr>written = [], ids_used = 0\<rparr>"
    by blast
  from a b c show ?thesis by (intro conjI)
qed

text \<open>
  C8. A run of ingest_urls does not depend on what the output file held before (it is
  rewritten); the records written are those of the URLs in the order of the list, chunk
  after chunk (all URLs when the run ends normally); every record has the URL as
  \<open>source\<close> and the URL's domain as \<open>title\<close>; and, the identifier generator
  returning no value twice, all identifiers of the run are distinct.
\<close>

theorem collector_output:
  assumes inj: "inj (uuid4 env)"
      and run: "ingest_urls env urls old_file = (res, w)"
  shows "ingest_urls env urls old_file = ingest_urls env urls [] \<and>
         (\<exists>k\<le>length urls. (res = None \<longrightarrow> k = length urls) \<and>
             written w = numbered env 0 (planned env (take k urls)) \<and>
             map (\<lambda>r. (map_of r ''source'', map_of r ''title'')) (written w) =
               map (\<lambda>(u, c). (Some (JStr u), Some (JStr (netloc env u)))) (planned env (take k urls))) \<and>
         distinct (map (\<lambda>r. map_of r ''id'') (written w)) \<and>
         (\<forall>r\<in>set (written w). \<exists>u\<in>set urls.
             map_of r ''source'' = Some (JStr u) \<and> map_of r ''title'' = Some (JStr (netloc env u)))"
proof -
  have same: "ingest_urls env urls old_file = ingest_urls env urls []"
    by (simp add: ingest_urls_def)
  from run have "ingest_loop env urls \<lparr>written = [], ids_used = 0\<rparr> = (res, w)"
    by (simp add: ingest_urls_def)
  from ingest_loop_records [OF this] obtain k where k: "k \<le> length urls"
    "res = None \<longrightarrow> k = length urls"
    "written w = numbered env 0 (planned env (take k urls))"
    by auto
  let ?ps = "planned env (take k urls)"
  have src: "map (\<lambda>r. (map_of r ''source'', map_of r ''title'')) (written w) =
               map (\<lambda>(u, c). (Some (JStr u), Some (JStr (netloc env u)))) ?ps"
    unfolding k(3) by (rule sources_numbered)
  have "map (\<lambda>r. map_of r ''id'') (written w) =
          map (\<lambda>i. Some (JStr (uuid4 env i))) [0..<0 + length ?ps]"
    unfolding k(3) by (rule ids_numbered)
  moreover have "inj (\<lambda>i. Some (JStr (uuid4 env i)))"
    using inj by (auto simp: inj_def)
  ultimately have dist: "distinct (map (\<lambda>r. map_of r ''id'') (written w))"
    by (simp add: distinct_map inj_on_def inj_def)
  have fields: "\<forall>r\<in>set (written w). \<exists>u\<in>set urls.
             map_of r ''source'' = Some (JStr u) \<and> map_of r ''title'' = Some (JStr (netloc env u))"
  proof
    fix r assume "r \<in> set (written w)"
    then have "(map_of r ''source'', map_of r ''title'') \<in>
                 set (map (\<lambda>r. (map_of r ''source'', map_of r ''title'')) (written w))"
      by simp
    then obtain u c where uc: "(u, c) \<in> set ?ps"
      "map_of r ''source'' = Some (JStr u)" "map_of r ''title'' = Some (JStr (netloc env u))"
      unfolding src by auto
    from planned_urls [OF uc(1)] have "u \<in> set (take k urls)" .
    then have "u \<in> set urls" by (rule in_set_takeD)
    with uc show "\<exists>u\<in>set urls.
             map_of r ''source'' = Some (JStr u) \<and> map_of r ''title'' = Some (JStr (netloc env u))"
      by blast
  qed
  have "\<exists>k\<le>length urls. (res = None \<longrightarrow> k = length urls) \<and>
             written w = numbered env 0 (planned env (take k urls)) \<and>
             map (\<lambda>r. (map_of r ''source'', map_of r ''title'')) (written w) =
               map (\<lambda>(u, c). (Some (JStr u), Some (JStr (netloc env u)))) (planned env (take k urls))"
    using k src by blast
  with same dist fields show ?thesis by (intro conjI)
qed

text \<open>Four URLs, two of them without content, over a file that held a record.\<close>

theorem collector_output_witness:
  "ingest_urls example_env
     [''https://down.example/x'', ''https://www.youtube.com/watch?v=8rlNdKywldQ'',
      ''https://example.com/a'', ''https://example.com/b'']
     [chunk_with_metadata ''old'' ''old text'' ''https://old.example/'' ''old.example''] =
   (None,
    \<lparr>written = [chunk_with_metadata ''u'' ''Not Found'' ''https://example.com/a'' ''example.com'',
                chunk_with_metadata ''uu'' ''Not Found'' ''https://example.com/b'' ''example.com''],
     ids_used = 2\<rparr>) \<and>
   distinct (map (\<lambda>r. map_of r ''id'')
     [chunk_with_metadata ''u'' ''Not Found'' ''https://example.com/a'' ''example.com'',
      chunk_with_metadata ''uu'' ''Not Found'' ''https://example.com/b'' ''example.com''])"
proof -
  note t = collector_output [OF example_uuid4_inj example_run
             [of "[chunk_with_metadata ''old'' ''old text'' ''https://old.example/'' ''old.example'']"]]
  note d = t [THEN conjunct2, THEN conjunct2, THEN conjunct1]
  have "distinct (map (\<lambda>r. map_of r ''id'')
     [chunk_with_metadata ''u'' ''Not Found'' ''https://example.com/a'' ''example.com'',
      chunk_with_metadata ''uu'' ''Not Found'' ''https://example.com/b'' ''example.com''])"
    using d by (simp only: collect_world.select_convs)
  with example_run show ?thesis by (intro conjI)
qed

text \<open>
  C10. When the request returns a response, whatever its status code, and the text of
  its body is extracted, scrape_web_page returns that text: replacing the status code of
  every response by any other changes nothing. For a URL that is neither a video nor a
  repository and a text that is not empty, the chunks of the text are then written as
  records like those of any page.
\<close>

theorem error_page_is_ingested:
  assumes get: "requests_get env url = Inr r"
      and soup: "soup_text env (content r) = Inr text"
  shows "scrape_web_page env url = Inr (Some text) \<and>
         (\<forall>s. scrape_web_page
                 (env\<lparr>requests_get := (\<lambda>u. map_sum id (\<lambda>r. r\<lparr>status_code := s\<rparr>) (requests_get env u))\<rparr>)
                 url = scrape_web_page env url) \<and>
         (\<not> contains ''youtube.com'' (netloc env url) \<and> \<not> contains ''github.com'' (netloc env url) \<and>
          text \<noteq> [] \<longrightarrow>
            ingest_loop env (url # urls) w =
              ingest_loop env urls (write_chunks env url (netloc env url) (split_text env text) w) \<and>
            written (write_chunks env url (netloc env url) (split_text env text) w) =
              written w @ numbered env (ids_used w) (map (Pair url) (split_text env text)))"
proof -
  have a: "scrape_web_page env url = Inr (Some text)"
    by (simp add: scrape_web_page_def get soup)
  have b: "\<forall>s. scrape_web_page
                 (env\<lparr>requests_get := (\<lambda>u. map_sum id (\<lambda>r. r\<lparr>status_code := s\<rparr>) (requests_get env u))\<rparr>)
                 url = scrape_web_page env url"
    by (simp add: scrape_web_page_def get soup)
  have c: "\<not> contains ''youtube.com'' (netloc env url) \<and> \<not> contains ''github.com'' (netloc env url) \<and>
          text \<noteq> [] \<longrightarrow>
            ingest_loop env (url # urls) w =
              ingest_loop env urls (write_chunks env url (netloc env url) (split_text env text) w) \<and>
            written (write_chunks env url (netloc env url) (split_text env text) w) =
              written w @ numbered env (ids_used w) (map (Pair url) (split_text env text))"
    using a write_chunks_records [of env url "split_text env text" w]
    by (simp add: fetch_content_def)
  from a b c show ?thesis by (intro conjI)
qed

text \<open>A page that answers 404: the text of the error page becomes a record.\<close>

theorem error_page_is_ingested_witness:
  "requests_get example_env ''https://example.com/a'' =
     Inr \<lparr>status_code = 404, content = ''<h1>Not Found</h1>''\<rparr> \<and>
   scrape_web_page example_env ''https://example.com/a'' = Inr (Some ''Not Found'') \<and>
   ingest_loop example_env [''https://example.com/a''] \<lparr>written = [], ids_used = 0\<rparr> =
     (None, \<lparr>written = [chunk_with_metadata ''u'' ''Not Found'' ''https://example.com/a'' ''example.com''],
             ids_used = 1\<rparr>)"
proof -
  let ?u = "''https://example.com/a''"
  let ?w = "\<lparr>written = [], ids_used = 0\<rparr>"
  have get: "requests_get example_env ?u = Inr \<lparr>status_code = 404, content = ''<h1>Not Found</h1>''\<rparr>"
    by (simp add: example_env_def)
  have soup: "soup_text example_env (content \<lparr>status_code = 404, content = ''<h1>Not Found</h1>''\<rparr>) =
      Inr ''Not Found''"
    by (simp add: example_env_def)
  note t = error_page_is_ingested [OF get soup, of "[]" ?w]
  from t have a: "scrape_web_page example_env ?u = Inr (Some ''Not Found'')" by blast
  have d: "\<not> contains ''youtube.com'' (netloc example_env ?u) \<and>
           \<not> contains ''github.com'' (netloc example_env ?u) \<and> ''Not Found'' \<noteq> []"
    by (simp add: example_env_def)
  with t have "ingest_loop example_env [?u] ?w =
      ingest_loop example_env [] (write_chunks example_env ?u (netloc example_env ?u)
         (split_text example_env ''Not Found'') ?w)"
    by blast
  also have "\<dots> = (None, \<lparr>written = [chunk_with_metadata ''u'' ''Not Found'' ?u ''example.com''],
             ids_used = 1\<rparr>)"
    by (simp add: example_env_def)
  finally show ?thesis using get a by (intro conjI)
qed

text \<open>
  C7, against the splitter modelled from the spec. With CHUNK_SIZE and CHUNK_OVERLAP
  not negative, the text of every record the Collector writes has at most CHUNK_SIZE
  characters; every chunk of a text is the part of the text at its position and has at
  most CHUNK_SIZE characters; and each chunk starts after the start of the chunk before
  it and at most CHUNK_OVERLAP characters before its end.
\<close>

theorem chunk_bounds:
  assumes size: "0 \<le> CHUNK_SIZE" and overlap: "0 \<le> CHUNK_OVERLAP"
      and splitter: "split_text env = spec_split_text CHUNK_SIZE CHUNK_OVERLAP"
      and run: "ingest_urls env urls old_file = (res, w)"
  shows "(\<forall>r\<in>set (written w). \<exists>chunk. map_of r ''text'' = Some (JStr chunk) \<and>
                                       int (length chunk) \<le> CHUNK_SIZE) \<and>
         (\<forall>text.
            (\<forall>(s, c)\<in>set (split_spans (nat CHUNK_SIZE) (nat CHUNK_OVERLAP) 0 text).
                int (length c) \<le> CHUNK_SIZE \<and> c = take (length c) (drop s text)) \<and>
            successively (\<lambda>(s1, c1) (s2, c2). s1 < s2 \<and> int (s1 + length c1) - int s2 \<le> CHUNK_OVERLAP)
              (split_spans (nat CHUNK_SIZE) (nat CHUNK_OVERLAP) 0 text))"
proof -
  have spans: "(s, c) \<in> set (split_spans (nat CHUNK_SIZE) (nat CHUNK_OVERLAP) 0 t) \<Longrightarrow>
               int (length c) \<le> CHUNK_SIZE \<and> c = take (length c) (drop s t)" for s c t
    using split_spans_sound [of s c "nat CHUNK_SIZE" "nat CHUNK_OVERLAP" 0 t] size by auto
  have succ: "successively (\<lambda>(s1, c1) (s2, c2). s1 < s2 \<and> int (s1 + length c1) - int s2 \<le> CHUNK_OVERLAP)
              (split_spans (nat CHUNK_SIZE) (nat CHUNK_OVERLAP) 0 t)" for t
  proof -
    have "successively (\<lambda>(s1, c1) (s2, c2). s1 < s2 \<and> s1 + length c1 \<le> s2 + nat CHUNK_OVERLAP)
              (split_spans (nat CHUNK_SIZE) (nat CHUNK_OVERLAP) 0 t)"
      by (rule split_spans_successive)
    then show ?thesis
      by (rule successively_mono) (use overlap in auto)
  qed
  have recs: "\<forall>r\<in>set (written w). \<exists>chunk. map_of r ''text'' = Some (JStr chunk) \<and>
                                       int (length chunk) \<le> CHUNK_SIZE"
  proof
    fix r assume r: "r \<in> set (written w)"
    from run have "ingest_loop env urls \<lparr>written = [], ids_used = 0\<rparr> = (res, w)"
      by (simp add: ingest_urls_def)
    from ingest_loop_records [OF this] obtain k where
      k: "written w = numbered env 0 (planned env (take k urls))" by auto
    have "map_of r ''text'' \<in> set (map (\<lambda>r. map_of r ''text'') (written w))" using r by simp
    then have "map_of r ''text'' \<in> set (map (\<lambda>(u, c). Some (JStr c)) (planned env (take k urls)))"
      unfolding k texts_numbered .
    then obtain u c where uc: "(u, c) \<in> set (planned env (take k urls))"
      "map_of r ''text'' = Some (JStr c)" by auto
    from planned_chunks [OF uc(1)] obtain t where "c \<in> set (split_text env t)" by blast
    then obtain s where "(s, c) \<in> set (split_spans (nat CHUNK_SIZE) (nat CHUNK_OVERLAP) 0 t)"
      unfolding splitter spec_split_text_def by auto
    from spans [OF this] uc(2)
    show "\<exists>chunk. map_of r ''text'' = Some (JStr chunk) \<and> int (length chunk) \<le> CHUNK_SIZE"
      by blast
  qed
  show ?thesis using recs spans succ by blast
qed

text \<open>
  A page of 120 characters with CHUNK_SIZE 50 and CHUNK_OVERLAP 10: three chunks, at
  positions 0, 40 and 80.
\<close>

theorem chunk_bounds_witness:
  "map snd (split_spans 50 10 0 (replicate 120 CHR ''x'')) =
     [replicate 50 CHR ''x'', replicate 50 CHR ''x'', replicate 40 CHR ''x''] \<and>
   map fst (split_spans 50 10 0 (replicate 120 CHR ''x'')) = [0, 40, 80] \<and>
   map (\<lambda>r. map_of r ''text'') (written (snd (ingest_urls long_page_env [''https://example.com/a''] []))) =
     [Some (JStr (replicate 50 CHR ''x'')), Some (JStr (replicate 50 CHR ''x'')),
      Some (JStr (replicate 40 CHR ''x''))] \<and>
   (\<exists>chunk. map_of (hd (written (snd (ingest_urls long_page_env [''https://example.com/a''] [])))) ''text''
               = Some (JStr chunk) \<and> int (length chunk) \<le> 50)"
proof -
  let ?w = "snd (ingest_urls long_page_env [''https://example.com/a''] [])"
  have h1: "(0::int) \<le> 50" and h2: "(0::int) \<le> 10" by simp_all
  have h3: "split_text long_page_env = spec_split_text 50 10"
    by (simp add: long_page_env_def)
  have run: "ingest_urls long_page_env [''https://example.com/a''] [] = (None, ?w)"
    by (simp add: long_page_run)
  note t = chunk_bounds [OF h1 h2 h3 run]
  have "hd (written ?w) \<in> set (written ?w)" by (simp add: long_page_run)
  with t have a: "\<exists>chunk. map_of (hd (written ?w)) ''text'' = Some (JStr chunk) \<and> int (length chunk) \<le> 50"
    by blast
  have b: "map (\<lambda>r. map_of r ''text'') (written ?w) =
     [Some (JStr (replicate 50 CHR ''x'')), Some (JStr (replicate 50 CHR ''x'')),
      Some (JStr (replicate 40 CHR ''x''))]"
    by (simp add: long_page_run chunk_with_metadata_def)
  from a b show ?thesis by (simp add: spans120)
qed

section \<open>Properties of the Embedder\<close>

lemma batches_of_Nil [simp]: "batches_of n [] = []"
  by (simp add: batches_of.simps)

lemma batches_of_step: "0 < n \<Longrightarrow> xs \<noteq> [] \<Longrightarrow> batches_of n xs = take n xs # batches_of n (drop n xs)"
  by (subst batches_of.simps) simp

lemma concat_batches_of: "0 < n \<Longrightarrow> concat (batches_of n xs) = xs"
proof (induction n xs rule: batches_of.induct)
  case (1 n xs)
  show ?case
  proof (cases "xs = []")
    case True then show ?thesis by simp
  next
    case False
    with 1 show ?thesis by (simp add: batches_of_step)
  qed
qed

lemma ceil_div_step: "0 < n \<Longrightarrow> Suc ((Suc m - n + n - 1) div n) = (Suc m + n - 1) div n"
proof (cases "n \<le> Suc m")
  case True
  assume n: "0 < n"
  from True have "Suc m - n + n - 1 = m" by simp
  moreover have "(Suc m + n - 1) div n = Suc (m div n)" using n by simp
  ultimately show ?thesis by simp
next
  case False
  assume n: "0 < n"
  from False have a: "Suc m - n + n - 1 = n - 1" by simp
  have b: "(n - 1) div n = 0" using n by simp
  have c: "m div n = 0" using False by simp
  have "(Suc m + n - 1) div n = Suc (m div n)" using n by simp
  with a b c show ?thesis by simp
qed

lemma length_batches_of: "0 < n \<Longrightarrow> length (batches_of n xs) = (length xs + n - 1) div n"
proof (induction n xs rule: batches_of.induct)
  case (1 n xs)
  show ?case
  proof (cases "xs = []")
    case True
    with 1(2) show ?thesis by simp
  next
    case False
    then obtain m where m: "length xs = Suc m" by (cases xs) auto
    have ih: "length (batches_of n (drop n xs)) = (length (drop n xs) + n - 1) div n"
      using 1(1) 1(2) False by blast
    have "length (batches_of n xs) = Suc (length (batches_of n (drop n xs)))"
      using False 1(2) by (simp add: batches_of_step)
    also have "\<dots> = Suc ((Suc m - n + n - 1) div n)"
      by (simp only: ih length_drop m)
    also have "\<dots> = (Suc m + n - 1) div n"
      using 1(2) by (rule ceil_div_step)
    finally show ?thesis by (simp only: m)
  qed
qed

lemma batches_of_append:
  "b \<noteq> [] \<Longrightarrow> batches_of (length b) (b @ rest) = b # batches_of (length b) rest"
  by (subst batches_of.simps) simp

lemma embed_lines_batches:
  "int (length batch) < max 1 B \<Longrightarrow>
   embed_lines model B infile batch w = run_batches model (batches_of (nat (max 1 B)) (batch @ infile)) w"
proof (induction infile arbitrary: batch w)
  case Nil
  show ?case
  proof (cases "batch = []")
    case True then show ?thesis by simp
  next
    case False
    with Nil have "batches_of (nat (max 1 B)) batch = [batch]"
      by (simp add: batches_of_step)
    then show ?thesis using False by (simp split: prod.splits option.splits)
  qed
next
  case (Cons item infile)
  let ?n = "nat (max 1 B)"
  let ?b = "batch @ [item]"
  show ?case
  proof (cases "int (length ?b) \<ge> B")
    case True
    with Cons.prems have len: "length ?b = ?n" by auto
    have "batches_of ?n (?b @ infile) = ?b # batches_of ?n infile"
      using batches_of_append [of ?b infile] by (simp only: len) simp
    moreover have "embed_lines model B infile [] w' = run_batches model (batches_of ?n infile) w'" for w'
      using Cons.IH [of "[]" w'] by simp
    ultimately show ?thesis using True
      by (simp split: prod.splits option.splits)
  next
    case False
    then have "int (length ?b) < max 1 B" by simp
    from Cons.IH [OF this] False show ?thesis by simp
  qed
qed

lemma write_items_outfile:
  "write_items j batch es w = (r, w') \<Longrightarrow>
   outfile w' = outfile w @ map2 set_embedding (drop j es) batch \<and>
   calls w' = calls w \<and> sleeps w' = sleeps w \<and> requests w' = requests w \<and>
   (r = None \<or> r = Some IndexError)"
proof (induction batch arbitrary: j w)
  case Nil
  then show ?case by auto
next
  case (Cons item rest)
  show ?case
  proof (cases "j < length es")
    case True
    then have d: "drop j es = es ! j # drop (Suc j) es" by (simp add: Cons_nth_drop_Suc)
    from Cons.prems True
    have "write_items (Suc j) rest es (w\<lparr>outfile := outfile w @ [set_embedding (es ! j) item]\<rparr>) = (r, w')"
      by simp
    from Cons.IH [OF this] show ?thesis by (simp add: d)
  next
    case False
    with Cons.prems show ?thesis by auto
  qed
qed

lemma retry_loop_frame:
  "retry_loop model texts n d w = (r, w') \<Longrightarrow>
   outfile w' = outfile w \<and> requests w' = requests w"
proof (induction n arbitrary: d w)
  case 0
  then show ?case by auto
next
  case (Suc n)
  show ?case
  proof (cases "model (length (calls w)) texts")
    case (Inr es)
    with Suc.prems show ?thesis by auto
  next
    case (Inl e)
    show ?thesis
    proof (cases "is_Exception e")
      case True
      with Inl Suc.prems
      have "retry_loop model texts n (d * 2)
              (w\<lparr>calls := calls w @ [texts], sleeps := sleeps w @ [d]\<rparr>) = (r, w')"
        by simp
      from Suc.IH [OF this] show ?thesis by simp
    next
      case False
      with Inl Suc.prems show ?thesis by auto
    qed
  qed
qed

lemma retry_loop_error:
  "retry_loop model texts n d w = (Inl e, w') \<Longrightarrow>
   is_Exception e \<or> (\<exists>k. model k texts = Inl e)"
proof (induction n arbitrary: d w)
  case 0
  then show ?case by auto
next
  case (Suc n)
  show ?case
  proof (cases "model (length (calls w)) texts")
    case (Inr es)
    with Suc.prems show ?thesis by auto
  next
    case (Inl e')
    show ?thesis
    proof (cases "is_Exception e'")
      case True
      with Inl Suc.prems
      have "retry_loop model texts n (d * 2)
              (w\<lparr>calls := calls w @ [texts], sleeps := sleeps w @ [d]\<rparr>) = (Inl e, w')"
        by simp
      from Suc.IH [OF this] show ?thesis .
    next
      case False
      with Inl Suc.prems show ?thesis by auto
    qed
  qed
qed

lemma retry_loop_all_fail:
  "(\<forall>k<n. \<exists>e. model (length (calls w) + k) texts = Inl e \<and> is_Exception e) \<Longrightarrow>
   retry_loop model texts n d w =
     (Inl (Exception ''Failed to get embeddings after multiple retries.''),
      w\<lparr>calls := calls w @ replicate n texts,
        sleeps := sleeps w @ map (\<lambda>k. d * 2 ^ k) [0..<n]\<rparr>)"
proof (induction n arbitrary: d w)
  case 0
  then show ?case by simp
next
  case (Suc n)
  from Suc.prems obtain e where e: "model (length (calls w)) texts = Inl e" "is_Exception e"
    by force
  let ?w = "w\<lparr>calls := calls w @ [texts], sleeps := sleeps w @ [d]\<rparr>"
  have "\<forall>k<n. \<exists>e. model (length (calls ?w) + k) texts = Inl e \<and> is_Exception e"
  proof (intro allI impI)
    fix k assume "k < n"
    then have "Suc k < Suc n" by simp
    with Suc.prems obtain e' where "model (length (calls w) + Suc k) texts = Inl e'" "is_Exception e'"
      by blast
    then show "\<exists>e. model (length (calls ?w) + k) texts = Inl e \<and> is_Exception e" by simp
  qed
  from Suc.IH [OF this, of "d * 2"]
  have "retry_loop model texts n (d * 2) ?w =
     (Inl (Exception ''Failed to get embeddings after multiple retries.''),
      ?w\<lparr>calls := calls ?w @ replicate n texts,
        sleeps := sleeps ?w @ map (\<lambda>k. d * 2 * 2 ^ k) [0..<n]\<rparr>)" .
  moreover have "map (\<lambda>k. d * 2 ^ k) [0..<Suc n] = d # map (\<lambda>k. d * 2 * 2 ^ k) [0..<n]"
    by (simp add: upt_conv_Cons map_Suc_upt [symmetric] del: upt_Suc)
  moreover have "replicate (Suc n) texts = texts # replicate n texts" by simp
  ultimately show ?case using e by (simp del: upt_Suc replicate_Suc)
qed

lemma process_batch_texts_error:
  "batch_texts b = Inl e \<Longrightarrow> process_batch model b w = (Some e, w)"
  by (simp add: process_batch_def)

lemma process_batch_request:
  assumes "batch_texts b = Inr ts" and "process_batch model b w = (res, w')"
  shows "\<exists>r. requests w' = requests w @ [(ts, r)] \<and>
             outfile w' = outfile w @ batch_output b r \<and>
             (res = None \<or> (\<exists>e. r = Inl e \<and> \<not> is_Exception e \<and> res = Some e
                                \<and> (\<exists>k. model k ts = Inl e)))"
proof -
  obtain r w0 where rl: "retry_loop model ts 5 1 w = (r, w0)" by (cases "retry_loop model ts 5 1 w")
  from retry_loop_frame [OF rl] have fr: "outfile w0 = outfile w" "requests w0 = requests w" by auto
  let ?w1 = "w0\<lparr>requests := requests w0 @ [(ts, r)]\<rparr>"
  have g: "get_embeddings_with_retry model ts w = (r, ?w1)"
    unfolding get_embeddings_with_retry_def rl by simp
  show ?thesis
  proof (cases r)
    case (Inl e)
    from rl Inl retry_loop_error have cls: "is_Exception e \<or> (\<exists>k. model k ts = Inl e)" by blast
    from assms g Inl have "w' = ?w1" "res = (if is_Exception e then None else Some e)"
      by (auto simp: process_batch_def split: if_splits)
    with Inl fr cls show ?thesis by (auto simp: batch_output_def)
  next
    case (Inr es)
    obtain r2 w2 where wi: "write_items 0 b es ?w1 = (r2, w2)" by (cases "write_items 0 b es ?w1")
    from write_items_outfile [OF wi]
    have w2: "outfile w2 = outfile ?w1 @ map2 set_embedding es b" "requests w2 = requests ?w1"
      "r2 = None \<or> r2 = Some IndexError" by auto
    from assms g Inr wi w2(3) have "w' = w2" "res = None"
      by (auto simp: process_batch_def split: if_splits)
    with Inr fr w2 show ?thesis by (auto simp: batch_output_def)
  qed
qed

lemma run_batches_trace:
  "run_batches model bs w = (res, w') \<Longrightarrow>
   \<exists>rq. requests w' = requests w @ rq \<and> length rq \<le> length bs \<and>
        map batch_texts (take (length rq) bs) = map (\<lambda>q. Inr (fst q)) rq \<and>
        outfile w' = outfile w @ concat (map2 (\<lambda>b q. batch_output b (snd q)) bs rq) \<and>
        (res = None \<longrightarrow> length rq = length bs)"
proof (induction bs arbitrary: w)
  case Nil
  then show ?case by auto
next
  case (Cons b bs)
  show ?case
  proof (cases "batch_texts b")
    case (Inl e)
    from Cons.prems process_batch_texts_error [OF Inl, of model w]
    have "res = Some e" "w' = w" by auto
    then show ?thesis by (intro exI [of _ "[]"]) simp
  next
    case (Inr ts)
    obtain r1 w1 where pb: "process_batch model b w = (r1, w1)" by (cases "process_batch model b w")
    from process_batch_request [OF Inr pb] obtain r where
      r: "requests w1 = requests w @ [(ts, r)]" "outfile w1 = outfile w @ batch_output b r" by blast
    show ?thesis
    proof (cases r1)
      case (Some e)
      with Cons.prems pb have "res = Some e" "w' = w1" by auto
      with r Inr show ?thesis by (intro exI [of _ "[(ts, r)]"]) simp
    next
      case None
      with Cons.prems pb have "run_batches model bs w1 = (res, w')" by simp
      from Cons.IH [OF this] obtain rq where
        rq: "requests w' = requests w1 @ rq" "length rq \<le> length bs"
            "map batch_texts (take (length rq) bs) = map (\<lambda>q. Inr (fst q)) rq"
            "outfile w' = outfile w1 @ concat (map2 (\<lambda>b q. batch_output b (snd q)) bs rq)"
            "res = None \<longrightarrow> length rq = length bs" by blast
      with r Inr show ?thesis by (intro exI [of _ "(ts, r) # rq"]) simp
    qed
  qed
qed

lemma run_batches_complete:
  assumes "\<forall>k ts e. model k ts = Inl e \<longrightarrow> is_Exception e"
  shows "\<forall>b\<in>set bs. \<exists>ts. batch_texts b = Inr ts \<Longrightarrow> fst (run_batches model bs w) = None"
proof (induction bs arbitrary: w)
  case Nil
  then show ?case by simp
next
  case (Cons b bs)
  then obtain ts where ts: "batch_texts b = Inr ts" by auto
  obtain r1 w1 where pb: "process_batch model b w = (r1, w1)" by (cases "process_batch model b w")
  from process_batch_request [OF ts pb] assms have "r1 = None" by blast
  with pb Cons show ?case by simp
qed

lemma map2_nth:
  "map2 f xs ys = map (\<lambda>i. f (xs ! i) (ys ! i)) [0..<min (length xs) (length ys)]"
  by (rule nth_equalityI) auto

lemma filter_less_upt: "filter (\<lambda>p. p < a) [0..<m] = [0..<min m a]"
proof (induction m)
  case 0
  show ?case by simp
next
  case (Suc m)
  show ?case
  proof (cases "m < a")
    case True
    then have "min (Suc m) a = Suc m" "min m a = m" by simp_all
    with Suc True show ?thesis by simp
  next
    case False
    then have "min (Suc m) a = a" "min m a = a" by simp_all
    with Suc False show ?thesis by simp
  qed
qed

lemma first_batch_positions:
  assumes n: "0 < n"
  shows "batch_output (take n xs) (snd q) =
         map (record_at (q # rq) n xs) (filter (kept (q # rq) n) [0..<min n (length xs)])"
proof (cases "snd q")
  case (Inl e)
  have "filter (kept (q # rq) n) [0..<min n (length xs)] = []"
    using Inl n by (auto simp: filter_empty_conv kept_def)
  with Inl show ?thesis by (simp add: batch_output_def)
next
  case (Inr es)
  have "filter (kept (q # rq) n) [0..<min n (length xs)] =
        filter (\<lambda>p. p < length es) [0..<min n (length xs)]"
    using Inr n by (intro filter_cong) (auto simp: kept_def)
  also have "\<dots> = [0..<min (min n (length xs)) (length es)]" by (rule filter_less_upt)
  also have "min (min n (length xs)) (length es) = min (length es) (min (length xs) n)"
    by (simp add: min.commute)
  finally have f: "filter (kept (q # rq) n) [0..<min n (length xs)] =
     [0..<min (length es) (min (length xs) n)]" .
  have "map2 set_embedding es (take n xs) =
        map (\<lambda>i. set_embedding (es ! i) (take n xs ! i)) [0..<min (length es) (length (take n xs))]"
    by (rule map2_nth)
  also have "\<dots> = map (record_at (q # rq) n xs) [0..<min (length es) (min (length xs) n)]"
    using Inr n by (intro map_cong) (auto simp: record_at_def)
  finally show ?thesis using Inr f by (simp add: batch_output_def)
qed

lemma later_positions:
  assumes n: "0 < n"
  shows "map (record_at (q # rq) n xs) (filter (kept (q # rq) n) [n..<length xs]) =
         map (record_at rq n (drop n xs)) (filter (kept rq n) [0..<length xs - n])"
proof -
  have u: "[n..<length xs] = map (\<lambda>p. p + n) [0..<length xs - n]"
    by (cases "n \<le> length xs") (simp_all add: map_add_upt)
  have k: "kept (q # rq) n (p + n) = kept rq n p" for p
    using n by (simp add: kept_def split: sum.splits)
  have r: "p < length xs - n \<Longrightarrow> record_at (q # rq) n xs (p + n) = record_at rq n (drop n xs) p" for p
    using n by (simp add: record_at_def add.commute)
  have "map (record_at (q # rq) n xs) (filter (kept (q # rq) n) [n..<length xs]) =
        map (\<lambda>p. record_at (q # rq) n xs (p + n)) (filter (kept rq n) [0..<length xs - n])"
    by (simp only: u filter_map map_map comp_def k)
  also have "\<dots> = map (record_at rq n (drop n xs)) (filter (kept rq n) [0..<length xs - n])"
    by (intro map_cong) (auto simp: r)
  finally show ?thesis .
qed

lemma outputs_positions:
  "0 < n \<Longrightarrow>
   concat (map2 (\<lambda>b q. batch_output b (snd q)) (batches_of n xs) rq) =
   map (record_at rq n xs) (filter (kept rq n) [0..<length xs])"
proof (induction rq arbitrary: xs)
  case Nil
  have "filter (kept [] n) [0..<length xs] = []" by (simp add: filter_empty_conv kept_def)
  then show ?case by simp
next
  case (Cons q rq)
  show ?case
  proof (cases "xs = []")
    case True
    then show ?thesis by simp
  next
    case False
    let ?m = "min n (length xs)"
    have split: "[0..<length xs] = [0..<?m] @ [?m..<length xs]"
      by (metis le_add_diff_inverse min.cobounded2 upt_add_eq_append zero_le)
    have tail: "filter (kept (q # rq) n) [?m..<length xs] = filter (kept (q # rq) n) [n..<length xs]"
      by (cases "n \<le> length xs") (simp_all add: min_def)
    have "concat (map2 (\<lambda>b q. batch_output b (snd q)) (batches_of n xs) (q # rq)) =
          batch_output (take n xs) (snd q) @
          concat (map2 (\<lambda>b q. batch_output b (snd q)) (batches_of n (drop n xs)) rq)"
      using False Cons.prems by (simp add: batches_of_step)
    also have "\<dots> = map (record_at (q # rq) n xs) (filter (kept (q # rq) n) [0..<?m]) @
          map (record_at rq n (drop n xs)) (filter (kept rq n) [0..<length xs - n])"
      using Cons.IH [OF Cons.prems, of "drop n xs"] first_batch_positions [OF Cons.prems, of xs q rq]
      by simp
    also have "\<dots> = map (record_at (q # rq) n xs) (filter (kept (q # rq) n) [0..<?m]) @
          map (record_at (q # rq) n xs) (filter (kept (q # rq) n) [?m..<length xs])"
      by (simp only: tail later_positions [OF Cons.prems])
    also have "\<dots> = map (record_at (q # rq) n xs) (filter (kept (q # rq) n) [0..<length xs])"
      by (subst split) (simp only: filter_append map_append)
    finally show ?thesis .
  qed
qed

lemma batch_texts_total:
  "\<forall>item\<in>set b. map_of item ''text'' \<noteq> None \<Longrightarrow> \<exists>ts. batch_texts b = Inr ts"
  by (induction b) auto

lemma batches_of_subset: "b \<in> set (batches_of n xs) \<Longrightarrow> set b \<subseteq> set xs"
proof (cases "0 < n")
  case True
  assume "b \<in> set (batches_of n xs)"
  then have "set b \<subseteq> set (concat (batches_of n xs))" by auto
  with True show ?thesis by (simp add: concat_batches_of)
next
  case False
  assume "b \<in> set (batches_of n xs)"
  with False show ?thesis by (simp add: batches_of.simps)
qed

lemma batches_of_nth:
  "0 < n \<Longrightarrow> i < length (batches_of n xs) \<Longrightarrow> batches_of n xs ! i = take n (drop (i * n) xs)"
proof (induction n xs arbitrary: i rule: batches_of.induct)
  case (1 n xs)
  show ?case
  proof (cases "xs = []")
    case True
    with 1(3) show ?thesis by simp
  next
    case False
    then have st: "batches_of n xs = take n xs # batches_of n (drop n xs)"
      using 1(2) by (simp add: batches_of_step)
    show ?thesis
    proof (cases i)
      case 0
      then show ?thesis by (simp add: st)
    next
      case (Suc j)
      with 1(3) st have "j < length (batches_of n (drop n xs))" by simp
      with 1(1) 1(2) False have "batches_of n (drop n xs) ! j = take n (drop (j * n) (drop n xs))"
        by blast
      then show ?thesis by (simp add: st Suc add.commute)
    qed
  qed
qed

lemma generate_embeddings_trace:
  assumes "generate_embeddings model B infile = (res, w')"
  shows "length (requests w') \<le> length (batches_of (nat (max 1 B)) infile) \<and>
         map batch_texts (take (length (requests w')) (batches_of (nat (max 1 B)) infile)) =
           map (\<lambda>q. Inr (fst q)) (requests w') \<and>
         outfile w' = concat (map2 (\<lambda>b q. batch_output b (snd q))
                        (batches_of (nat (max 1 B)) infile) (requests w')) \<and>
         (res = None \<longrightarrow> length (requests w') = length (batches_of (nat (max 1 B)) infile))"
proof -
  have "embed_lines model B infile [] start_world =
        run_batches model (batches_of (nat (max 1 B)) ([] @ infile)) start_world"
    by (rule embed_lines_batches) simp
  with assms have "run_batches model (batches_of (nat (max 1 B)) infile) start_world = (res, w')"
    by (simp add: generate_embeddings_def)
  from run_batches_trace [OF this] show ?thesis by (auto simp: start_world_def)
qed

lemma generate_embeddings_positions:
  assumes "generate_embeddings model B infile = (res, w')"
  shows "outfile w' = map (record_at (requests w') (nat (max 1 B)) infile)
                        (filter (kept (requests w') (nat (max 1 B))) [0..<length infile])"
proof -
  have "0 < nat (max 1 B)" by simp
  from outputs_positions [OF this] generate_embeddings_trace [OF assms]
  show ?thesis by simp
qed

lemma ceil_div_nat:
  assumes n: "0 < n"
  shows "int ((N + n - 1) div n) = \<lceil>real N / real n\<rceil>"
proof -
  define k where "k = (N + n - 1) div n"
  have lo: "k * n \<le> N + n - 1" unfolding k_def by (rule div_times_less_eq_dividend)
  have hi: "N + n - 1 < k * n + n"
    unfolding k_def using n dividend_less_div_times [of n "N + n - 1"] by (simp only: ac_simps)
  from hi n have u: "N \<le> k * n" by linarith
  from lo n have l: "k * n < N + n" by linarith
  have "real N \<le> real (k * n)" using u by (simp only: of_nat_le_iff)
  then have up: "real N / real n \<le> real k" using n by (simp add: field_simps)
  have "real (k * n) < real (N + n)" using l by (simp only: of_nat_less_iff)
  then have low: "real k - 1 < real N / real n" using n by (simp add: field_simps)
  have "\<lceil>real N / real n\<rceil> = int k"
    by (rule ceiling_unique) (use up low in simp_all)
  then show ?thesis by (simp add: k_def)
qed

lemma update_new_key: "k \<notin> fst ` set al \<Longrightarrow> AList.update k v al = al @ [(k, v)]"
  by (induction al) auto

lemma seven_run:
  "generate_embeddings first_call_only 5 seven_records =
     (None,
      \<lparr>calls = map JStr [''a'', ''b'', ''c'', ''d'', ''e''] # replicate 5 (map JStr [''f'', ''g'']),
       sleeps = [1, 2, 4, 8, 16],
       requests = [(map JStr [''a'', ''b'', ''c'', ''d'', ''e''], Inr (replicate 5 [1, 0])),
                   (map JStr [''f'', ''g''],
                    Inl (Exception ''Failed to get embeddings after multiple retries.''))],
       outfile = map (set_embedding [1, 0]) (take 5 seven_records)\<rparr>)"
  by (simp add: generate_embeddings_def start_world_def seven_records_def first_call_only_def
      process_batch_def get_embeddings_with_retry_def chunk_with_metadata_def set_embedding_def
      eval_nat_numeral)

text \<open>
  C3. When the embedding service fails on each of the five attempts that
  get_embeddings_with_retry makes (attempts number \<open>length (calls w)\<close> to
  \<open>length (calls w) + 4\<close> of the run), the function calls the service exactly five
  times with the same texts, sleeps 1, 2, 4, 8 and 16 seconds, and raises. The batch is
  then abandoned: process_batch writes nothing and raises nothing, so the loop of
  generate_embeddings goes on with the lines after a full batch, and ends normally
  after the final batch.
\<close>

theorem retry_exhaustion_skips_batch:
  assumes fail: "\<forall>k<5. \<exists>e. model (length (calls w) + k) texts = Inl e \<and> is_Exception e"
      and texts: "batch_texts batch = Inr texts"
  shows "\<exists>w'. get_embeddings_with_retry model texts w =
                 (Inl (Exception ''Failed to get embeddings after multiple retries.''), w') \<and>
              calls w' = calls w @ replicate 5 texts \<and>
              sleeps w' = sleeps w @ [1, 2, 4, 8, 16] \<and>
              outfile w' = outfile w \<and>
              process_batch model batch w = (None, w') \<and>
              (batch \<noteq> [] \<longrightarrow> embed_lines model B [] batch w = (None, w')) \<and>
              (\<forall>pre item infile. batch = pre @ [item] \<and> B \<le> int (length batch) \<longrightarrow>
                 embed_lines model B (item # infile) pre w = embed_lines model B infile [] w')"
proof -
  let ?e = "Exception ''Failed to get embeddings after multiple retries.''"
  let ?w0 = "w\<lparr>calls := calls w @ replicate 5 texts,
               sleeps := sleeps w @ map (\<lambda>k. 1 * 2 ^ k) [0..<5]\<rparr>"
  let ?w' = "?w0\<lparr>requests := requests ?w0 @ [(texts, Inl ?e)]\<rparr>"
  have rl: "retry_loop model texts 5 1 w = (Inl ?e, ?w0)"
    using fail by (rule retry_loop_all_fail)
  have g: "get_embeddings_with_retry model texts w = (Inl ?e, ?w')"
    unfolding get_embeddings_with_retry_def rl by simp
  have sl: "map (\<lambda>k. 1 * 2 ^ k) [0..<5] = [1, 2, 4, 8, 16::nat]"
    by (simp add: upt_rec)
  have pb: "process_batch model batch w = (None, ?w')"
    by (simp add: process_batch_def texts g)
  have "calls ?w' = calls w @ replicate 5 texts" by simp
  moreover have "sleeps ?w' = sleeps w @ [1, 2, 4, 8, 16]" using sl by simp
  moreover have "outfile ?w' = outfile w" by simp
  moreover have "batch \<noteq> [] \<longrightarrow> embed_lines model B [] batch w = (None, ?w')"
    using pb by simp
  moreover have "\<forall>pre item infile. batch = pre @ [item] \<and> B \<le> int (length batch) \<longrightarrow>
                 embed_lines model B (item # infile) pre w = embed_lines model B infile [] ?w'"
    using pb by auto
  ultimately show ?thesis using g pb by blast
qed

text \<open>The last two of the seven records, with a service that never answers.\<close>

theorem retry_exhaustion_skips_batch_witness:
  "batch_texts (drop 5 seven_records) = Inr (map JStr [''f'', ''g'']) \<and>
   fst (process_batch never_answers (drop 5 seven_records) start_world) = None \<and>
   calls (snd (process_batch never_answers (drop 5 seven_records) start_world)) =
     replicate 5 (map JStr [''f'', ''g'']) \<and>
   sleeps (snd (process_batch never_answers (drop 5 seven_records) start_world)) = [1, 2, 4, 8, 16] \<and>
   outfile (snd (process_batch never_answers (drop 5 seven_records) start_world)) = []"
proof -
  have h1: "\<forall>k<5. \<exists>e. never_answers (length (calls start_world) + k) (map JStr [''f'', ''g'']) = Inl e
              \<and> is_Exception e"
    by (simp add: never_answers_def)
  have h2: "batch_texts (drop 5 seven_records) = Inr (map JStr [''f'', ''g''])"
    by (simp add: seven_records_def chunk_with_metadata_def)
  from retry_exhaustion_skips_batch
         [where model = never_answers and w = start_world and B = 5, OF h1 h2]
  obtain w' where
    w': "calls w' = calls start_world @ replicate 5 (map JStr [''f'', ''g''])"
        "sleeps w' = sleeps start_world @ [1, 2, 4, 8, 16]"
        "outfile w' = outfile start_world"
        "process_batch never_answers (drop 5 seven_records) start_world = (None, w')"
    by blast
  have s: "calls start_world = []" "sleeps start_world = []" "outfile start_world = []"
    by (simp_all add: start_world_def)
  show ?thesis unfolding w'(4) using h2 w'(1,2,3) s by simp
qed

text \<open>
  C4. For an input file of \<open>N\<close> chunk records (each has a \<open>text\<close>), a batch
  size \<open>B \<ge> 1\<close> and a service whose failures are exceptions of class \<open>Exception\<close>,
  the run ends normally and issues exactly \<open>\<lceil>N / B\<rceil>\<close> requests (invocations of
  get_embeddings_with_retry, each with its retries): request number \<open>i\<close> carries the
  texts of the \<open>i\<close>-th consecutive batch of \<open>B\<close> records, the batches put together
  are the file, and the last batch holds the rest. The output is, batch after batch,
  nothing for a batch whose request failed and the records with their vectors for a
  batch whose request was answered.
\<close>

theorem batches_and_lost_batch:
  assumes B: "0 < B"
      and texts: "\<forall>item\<in>set infile. map_of item ''text'' \<noteq> None"
      and cls: "\<forall>k ts e. model k ts = Inl e \<longrightarrow> is_Exception e"
      and run: "generate_embeddings model B infile = (res, w')"
  shows "res = None \<and>
         int (length (requests w')) = \<lceil>real (length infile) / real_of_int B\<rceil> \<and>
         map batch_texts (batches_of (nat B) infile) = map (\<lambda>q. Inr (fst q)) (requests w') \<and>
         concat (batches_of (nat B) infile) = infile \<and>
         (\<forall>i<length (batches_of (nat B) infile).
            batches_of (nat B) infile ! i = take (nat B) (drop (i * nat B) infile)) \<and>
         outfile w' =
           concat (map2 (\<lambda>b q. case snd q of Inl e \<Rightarrow> [] | Inr es \<Rightarrow> map2 set_embedding es b)
                     (batches_of (nat B) infile) (requests w'))"
proof -
  let ?n = "nat B"
  let ?bs = "batches_of ?n infile"
  have n: "0 < ?n" "nat (max 1 B) = ?n" using B by simp_all
  have run': "run_batches model ?bs start_world = (res, w')"
    using run embed_lines_batches [of "[]" B model infile start_world] n
    by (simp add: generate_embeddings_def)
  have "\<forall>b\<in>set ?bs. \<exists>ts. batch_texts b = Inr ts"
  proof
    fix b assume "b \<in> set ?bs"
    then have "set b \<subseteq> set infile" by (rule batches_of_subset)
    with texts have "\<forall>item\<in>set b. map_of item ''text'' \<noteq> None" by blast
    then show "\<exists>ts. batch_texts b = Inr ts" by (rule batch_texts_total)
  qed
  from run_batches_complete [OF cls this, of start_world] run'
  have res: "res = None" by simp
  from generate_embeddings_trace [OF run] have
    tr0: "map batch_texts (take (length (requests w')) (batches_of (nat (max 1 B)) infile)) =
           map (\<lambda>q. Inr (fst q)) (requests w')"
     and tr1: "outfile w' = concat (map2 (\<lambda>b q. batch_output b (snd q))
                        (batches_of (nat (max 1 B)) infile) (requests w'))"
     and tr2: "res = None \<longrightarrow> length (requests w') = length (batches_of (nat (max 1 B)) infile)"
    by blast+
  from tr2 res n have len: "length (requests w') = length ?bs" by simp
  have "length (requests w') = (length infile + ?n - 1) div ?n"
    using len n(1) by (simp only: length_batches_of)
  then have "int (length (requests w')) = \<lceil>real (length infile) / real ?n\<rceil>"
    using ceil_div_nat [OF n(1), of "length infile"] by simp
  moreover have "real ?n = real_of_int B" using B by simp
  ultimately have ceil: "int (length (requests w')) = \<lceil>real (length infile) / real_of_int B\<rceil>"
    by simp
  have bo: "(\<lambda>b q. batch_output b (snd q)) =
            (\<lambda>b q. case snd q of Inl e \<Rightarrow> [] | Inr es \<Rightarrow> map2 set_embedding es b)"
    by (simp add: batch_output_def fun_eq_iff)
  have "concat ?bs = infile" using n(1) by (rule concat_batches_of)
  moreover have "\<forall>i<length ?bs. ?bs ! i = take ?n (drop (i * ?n) infile)"
    using n(1) by (simp add: batches_of_nth)
  moreover have "map batch_texts ?bs = map (\<lambda>q. Inr (fst q)) (requests w')"
    using tr0 len n(2) by simp
  moreover have "outfile w' =
           concat (map2 (\<lambda>b q. case snd q of Inl e \<Rightarrow> [] | Inr es \<Rightarrow> map2 set_embedding es b)
                     ?bs (requests w'))"
    using tr1 n(2) by (simp only: bo)
  ultimately show ?thesis using res ceil by blast
qed

text \<open>
  Seven records with batch size 5: two requests, of 5 and 2 texts; the second fails
  on all its attempts and the output holds the first five records.
\<close>

theorem batches_and_lost_batch_witness:
  "fst (generate_embeddings first_call_only 5 seven_records) = None \<and>
   length (requests (snd (generate_embeddings first_call_only 5 seven_records))) = 2 \<and>
   map (\<lambda>q. length (fst q)) (requests (snd (generate_embeddings first_call_only 5 seven_records))) = [5, 2] \<and>
   outfile (snd (generate_embeddings first_call_only 5 seven_records)) =
     map (set_embedding [1, 0]) (take 5 seven_records)"
proof -
  have h1: "(0::int) < 5" by simp
  have h2: "\<forall>item\<in>set seven_records. map_of item ''text'' \<noteq> None"
    by (simp add: seven_records_def chunk_with_metadata_def)
  have h3: "\<forall>k ts e. first_call_only k ts = Inl e \<longrightarrow> is_Exception e"
    by (auto simp: first_call_only_def split: if_splits)
  note t = batches_and_lost_batch [OF h1 h2 h3 seven_run]
  from t have "int (length (requests (snd (generate_embeddings first_call_only 5 seven_records)))) =
      \<lceil>real (length seven_records) / real_of_int 5\<rceil>"
    by (simp add: seven_run)
  moreover have "length seven_records = 7" by (simp add: seven_records_def)
  ultimately have n: "length (requests (snd (generate_embeddings first_call_only 5 seven_records))) = 2"
    by simp
  show ?thesis using n by (simp add: seven_run)
qed

subsection \<open>The vector of a written record\<close>

text \<open>The texts of a request are those of the records of its batch, index by index.\<close>

lemma batch_texts_nth:
  "batch_texts b = Inr ts \<Longrightarrow>
   length ts = length b \<and> (\<forall>i<length b. map_of (b ! i) ''text'' = Some (ts ! i))"
proof (induction b arbitrary: ts)
  case Nil
  then show ?case by simp
next
  case (Cons item b)
  from Cons.prems obtain t ts' where
    t: "map_of item ''text'' = Some t" "batch_texts b = Inr ts'" "ts = t # ts'"
    by (auto split: option.splits sum.splits)
  from Cons.IH [OF t(2)] t(1,3) show ?case by (auto simp: nth_Cons split: nat.splits)
qed

text \<open>An answer recorded for a request is an answer of the service to the texts of the request.\<close>

lemma retry_loop_answer:
  "retry_loop model texts n d w = (Inr es, w') \<Longrightarrow> \<exists>c. model c texts = Inr es"
proof (induction n arbitrary: d w)
  case 0
  then show ?case by simp
next
  case (Suc n)
  show ?case
  proof (cases "model (length (calls w)) texts")
    case (Inr es')
    with Suc.prems have "es' = es" by simp
    with Inr show ?thesis by blast
  next
    case (Inl e)
    show ?thesis
    proof (cases "is_Exception e")
      case True
      with Inl Suc.prems
      have "retry_loop model texts n (d * 2)
              (w\<lparr>calls := calls w @ [texts], sleeps := sleeps w @ [d]\<rparr>) = (Inr es, w')"
        by simp
      from Suc.IH [OF this] show ?thesis .
    next
      case False
      with Inl Suc.prems show ?thesis by simp
    qed
  qed
qed

lemma process_batch_answered:
  assumes "batch_texts b = Inr ts" and "process_batch model b w = (res, w')"
  shows "\<exists>r. requests w' = requests w @ [(ts, r)] \<and>
             (\<forall>es. r = Inr es \<longrightarrow> (\<exists>c. model c ts = Inr es))"
proof -
  obtain r w0 where rl: "retry_loop model ts 5 1 w = (r, w0)" by (cases "retry_loop model ts 5 1 w")
  from retry_loop_frame [OF rl] have fr: "requests w0 = requests w" by auto
  let ?w1 = "w0\<lparr>requests := requests w0 @ [(ts, r)]\<rparr>"
  have g: "get_embeddings_with_retry model ts w = (r, ?w1)"
    unfolding get_embeddings_with_retry_def rl by simp
  have ans: "\<forall>es. r = Inr es \<longrightarrow> (\<exists>c. model c ts = Inr es)"
    using rl retry_loop_answer by blast
  have "requests w' = requests ?w1"
  proof (cases r)
    case (Inl e)
    with assms g have "w' = ?w1" by (auto simp: process_batch_def split: if_splits)
    then show ?thesis by simp
  next
    case (Inr es)
    obtain r2 w2 where wi: "write_items 0 b es ?w1 = (r2, w2)" by (cases "write_items 0 b es ?w1")
    from write_items_outfile [OF wi] have w2: "requests w2 = requests ?w1" by auto
    from assms g Inr wi have "w' = w2"
      by (auto simp: process_batch_def split: if_splits option.splits)
    with w2 show ?thesis by simp
  qed
  with fr ans show ?thesis by simp
qed

lemma run_batches_answered:
  "run_batches model bs w = (res, w') \<Longrightarrow>
   \<forall>q\<in>set (requests w). \<forall>es. snd q = Inr es \<longrightarrow> (\<exists>c. model c (fst q) = Inr es) \<Longrightarrow>
   \<forall>q\<in>set (requests w'). \<forall>es. snd q = Inr es \<longrightarrow> (\<exists>c. model c (fst q) = Inr es)"
proof (induction bs arbitrary: w)
  case Nil
  then show ?case by simp
next
  case (Cons b bs)
  show ?case
  proof (cases "batch_texts b")
    case (Inl e)
    from Cons.prems(1) process_batch_texts_error [OF Inl, of model w] have "w' = w" by auto
    with Cons.prems(2) show ?thesis by simp
  next
    case (Inr ts)
    obtain r1 w1 where pb: "process_batch model b w = (r1, w1)" by (cases "process_batch model b w")
    from process_batch_answered [OF Inr pb] obtain r where
      r: "requests w1 = requests w @ [(ts, r)]" "\<forall>es. r = Inr es \<longrightarrow> (\<exists>c. model c ts = Inr es)"
      by blast
    with Cons.prems(2)
    have inv: "\<forall>q\<in>set (requests w1). \<forall>es. snd q = Inr es \<longrightarrow> (\<exists>c. model c (fst q) = Inr es)"
      by auto
    show ?thesis
    proof (cases r1)
      case (Some e)
      with Cons.prems(1) pb have "w' = w1" by auto
      with inv show ?thesis by simp
    next
      case None
      with Cons.prems(1) pb have "run_batches model bs w1 = (res, w')" by simp
      from Cons.IH [OF this inv] show ?thesis .
    qed
  qed
qed

lemma generate_embeddings_answered:
  assumes "generate_embeddings model B infile = (res, w')"
      and "j < length (requests w')" and "requests w' ! j = (ts, Inr es)"
  shows "\<exists>c. model c ts = Inr es"
proof -
  have "embed_lines model B infile [] start_world =
        run_batches model (batches_of (nat (max 1 B)) ([] @ infile)) start_world"
    by (rule embed_lines_batches) simp
  with assms(1) have "run_batches model (batches_of (nat (max 1 B)) infile) start_world = (res, w')"
    by (simp add: generate_embeddings_def)
  from run_batches_answered [OF this]
  have "\<forall>q\<in>set (requests w'). \<forall>es. snd q = Inr es \<longrightarrow> (\<exists>c. model c (fst q) = Inr es)"
    by (simp add: start_world_def)
  moreover have "requests w' ! j \<in> set (requests w')" using assms(2) by (rule nth_mem)
  ultimately show ?thesis using assms(3) by force
qed

lemma generate_embeddings_request_texts:
  assumes run: "generate_embeddings model B infile = (res, w')"
      and p: "p < length infile"
      and j: "p div nat (max 1 B) < length (requests w')"
      and q: "requests w' ! (p div nat (max 1 B)) = (ts, r)"
  shows "batch_texts (take (nat (max 1 B)) (drop (p div nat (max 1 B) * nat (max 1 B)) infile)) = Inr ts \<and>
         p mod nat (max 1 B) < length ts \<and>
         map_of (infile ! p) ''text'' = Some (ts ! (p mod nat (max 1 B)))"
proof -
  let ?n = "nat (max 1 B)"
  let ?j = "p div ?n"
  let ?b = "take ?n (drop (?j * ?n) infile)"
  have n: "0 < ?n" by simp
  from generate_embeddings_trace [OF run] have
    le: "length (requests w') \<le> length (batches_of ?n infile)" and
    tr: "map batch_texts (take (length (requests w')) (batches_of ?n infile)) =
           map (\<lambda>q. Inr (fst q)) (requests w')"
    by blast+
  from j le have jb: "?j < length (batches_of ?n infile)" by simp
  have "map batch_texts (take (length (requests w')) (batches_of ?n infile)) ! ?j =
        map (\<lambda>q. Inr (fst q)) (requests w') ! ?j" by (simp only: tr)
  with j jb q have "batch_texts (batches_of ?n infile ! ?j) = Inr ts" by simp
  with batches_of_nth [OF n jb] have bt: "batch_texts ?b = Inr ts" by simp
  have pj: "?j * ?n + p mod ?n = p" by simp
  have m1: "p mod ?n < ?n" using n by (rule mod_less_divisor)
  have m2: "p mod ?n < length infile - ?j * ?n" using pj p by linarith
  have lt: "p mod ?n < length ?b" using m1 m2 by simp
  have jlen: "?j * ?n \<le> length infile" using pj p by linarith
  have "?b ! (p mod ?n) = drop (?j * ?n) infile ! (p mod ?n)" using lt by simp
  also have "\<dots> = infile ! (?j * ?n + p mod ?n)" using jlen by (rule nth_drop)
  also have "\<dots> = infile ! p" by (simp only: pj)
  finally have nth: "?b ! (p mod ?n) = infile ! p" .
  from batch_texts_nth [OF bt] have
    len: "length ts = length ?b" and
    all: "\<forall>i<length ?b. map_of (?b ! i) ''text'' = Some (ts ! i)" by blast+
  from all lt have "map_of (?b ! (p mod ?n)) ''text'' = Some (ts ! (p mod ?n))" by blast
  then have t: "map_of (infile ! p) ''text'' = Some (ts ! (p mod ?n))" by (simp only: nth)
  from lt have l: "p mod ?n < length ts" by (simp only: len)
  from bt l t show ?thesis by (intro conjI)
qed

lemma indexed_run:
  "generate_embeddings indexed_model 3 seven_records =
     (None,
      \<lparr>calls = map JStr [''a'', ''b'', ''c''] # replicate 5 (map JStr [''d'', ''e'', ''f''])
                 @ [map JStr [''g'']],
       sleeps = [1, 2, 4, 8, 16],
       requests = [(map JStr [''a'', ''b'', ''c''], Inr [[0, 0], [0, 1], [0, 2]]),
                   (map JStr [''d'', ''e'', ''f''],
                    Inl (Exception ''Failed to get embeddings after multiple retries.'')),
                   (map JStr [''g''], Inr [[6, 0]])],
       outfile = [set_embedding [0, 0] (seven_records ! 0), set_embedding [0, 1] (seven_records ! 1),
                  set_embedding [0, 2] (seven_records ! 2), set_embedding [6, 0] (seven_records ! 6)]\<rparr>)"
  by (simp add: generate_embeddings_def start_world_def seven_records_def indexed_model_def
      process_batch_def get_embeddings_with_retry_def chunk_with_metadata_def set_embedding_def
      eval_nat_numeral)

lemma indexed_positions:
  "filter (kept (requests (snd (generate_embeddings indexed_model 3 seven_records))) 3)
     [0..<length seven_records] = [0, 1, 2, 6]"
proof -
  have u: "[0..<length seven_records] = [0, 1, 2, 3, 4, 5, 6]"
    by (simp add: seven_records_def upt_conv_Cons del: upt_Suc)
  show ?thesis unfolding u by (simp add: indexed_run kept_def)
qed

text \<open>
  C5. For every input, every batch size and every behaviour of the service, the
  records of the output come from strictly increasing positions of the input: the
  positions \<open>p\<close> whose request, number \<open>p div n\<close>, was answered with an entry at index
  \<open>p mod n\<close>, where \<open>n\<close> is the batch size in force (\<open>B\<close>, or 1 when \<open>B \<le> 0\<close>).
  That request carried the texts of the batch of \<open>p\<close>, the text of the record at index
  \<open>p mod n\<close>, and its answer \<open>es\<close> is an answer of the service to these texts. The
  record written for \<open>p\<close> has as its \<open>embedding\<close> the vector \<open>es ! (p mod n)\<close>, and
  under every other key what the input record has.
\<close>

theorem output_keeps_input_order:
  assumes run: "generate_embeddings model B infile = (res, w')"
  shows "\<exists>ps. ps = filter (kept (requests w') (nat (max 1 B))) [0..<length infile] \<and>
           sorted_wrt (<) ps \<and> length ps = length (outfile w') \<and>
           (\<forall>k<length ps.
              ps ! k < length infile \<and>
              ps ! k div nat (max 1 B) < length (requests w') \<and>
              (\<exists>ts es. requests w' ! (ps ! k div nat (max 1 B)) = (ts, Inr es) \<and>
                 batch_texts (take (nat (max 1 B))
                   (drop (ps ! k div nat (max 1 B) * nat (max 1 B)) infile)) = Inr ts \<and>
                 (\<exists>c. model c ts = Inr es) \<and>
                 ps ! k mod nat (max 1 B) < length ts \<and>
                 map_of (infile ! (ps ! k)) ''text'' = Some (ts ! (ps ! k mod nat (max 1 B))) \<and>
                 ps ! k mod nat (max 1 B) < length es \<and>
                 outfile w' ! k =
                   set_embedding (es ! (ps ! k mod nat (max 1 B))) (infile ! (ps ! k)) \<and>
                 map_of (outfile w' ! k) ''embedding'' =
                   Some (JArr (map JNum (es ! (ps ! k mod nat (max 1 B))))) \<and>
                 (\<forall>key. key \<noteq> ''embedding'' \<longrightarrow>
                    map_of (outfile w' ! k) key = map_of (infile ! (ps ! k)) key)))"
proof -
  let ?n = "nat (max 1 B)"
  let ?rq = "requests w'"
  let ?ps = "filter (kept ?rq ?n) [0..<length infile]"
  have out: "outfile w' = map (record_at ?rq ?n infile) ?ps"
    using run by (rule generate_embeddings_positions)
  have s: "sorted_wrt (<) ?ps" by (rule sorted_wrt_filter) simp
  have l: "length ?ps = length (outfile w')" by (simp add: out)
  have "\<forall>k<length ?ps.
              ?ps ! k < length infile \<and> ?ps ! k div ?n < length ?rq \<and>
              (\<exists>ts es. ?rq ! (?ps ! k div ?n) = (ts, Inr es) \<and>
                 batch_texts (take ?n (drop (?ps ! k div ?n * ?n) infile)) = Inr ts \<and>
                 (\<exists>c. model c ts = Inr es) \<and>
                 ?ps ! k mod ?n < length ts \<and>
                 map_of (infile ! (?ps ! k)) ''text'' = Some (ts ! (?ps ! k mod ?n)) \<and>
                 ?ps ! k mod ?n < length es \<and>
                 outfile w' ! k = set_embedding (es ! (?ps ! k mod ?n)) (infile ! (?ps ! k)) \<and>
                 map_of (outfile w' ! k) ''embedding'' = Some (JArr (map JNum (es ! (?ps ! k mod ?n)))) \<and>
                 (\<forall>key. key \<noteq> ''embedding'' \<longrightarrow>
                    map_of (outfile w' ! k) key = map_of (infile ! (?ps ! k)) key))"
  proof (intro allI impI)
    fix k assume k: "k < length ?ps"
    define p where "p = ?ps ! k"
    from k have "p \<in> set ?ps" unfolding p_def by (rule nth_mem)
    then have p: "p < length infile" "kept ?rq ?n p" by auto
    from p(2) obtain ts es where q: "p div ?n < length ?rq"
        "?rq ! (p div ?n) = (ts, Inr es)" "p mod ?n < length es"
      by (cases "?rq ! (p div ?n)") (auto simp: kept_def split: sum.splits)
    from generate_embeddings_request_texts [OF run p(1) q(1) q(2)] have
      t: "batch_texts (take ?n (drop (p div ?n * ?n) infile)) = Inr ts"
         "p mod ?n < length ts"
         "map_of (infile ! p) ''text'' = Some (ts ! (p mod ?n))"
      by blast+
    from generate_embeddings_answered [OF run q(1) q(2)] have a: "\<exists>c. model c ts = Inr es" .
    have "outfile w' ! k = record_at ?rq ?n infile p" using k by (simp add: out p_def)
    also have "\<dots> = set_embedding (es ! (p mod ?n)) (infile ! p)"
      by (simp add: record_at_def q(2))
    finally have r: "outfile w' ! k = set_embedding (es ! (p mod ?n)) (infile ! p)" .
    have m: "map_of (outfile w' ! k) = (map_of (infile ! p))(''embedding'' \<mapsto> JArr (map JNum (es ! (p mod ?n))))"
      unfolding r set_embedding_def by (rule update_conv')
    have e: "map_of (outfile w' ! k) ''embedding'' = Some (JArr (map JNum (es ! (p mod ?n))))"
      by (simp add: m)
    have o: "\<forall>key. key \<noteq> ''embedding'' \<longrightarrow> map_of (outfile w' ! k) key = map_of (infile ! p) key"
      by (simp add: m)
    have "\<exists>ts es. ?rq ! (p div ?n) = (ts, Inr es) \<and>
                 batch_texts (take ?n (drop (p div ?n * ?n) infile)) = Inr ts \<and>
                 (\<exists>c. model c ts = Inr es) \<and>
                 p mod ?n < length ts \<and>
                 map_of (infile ! p) ''text'' = Some (ts ! (p mod ?n)) \<and>
                 p mod ?n < length es \<and>
                 outfile w' ! k = set_embedding (es ! (p mod ?n)) (infile ! p) \<and>
                 map_of (outfile w' ! k) ''embedding'' = Some (JArr (map JNum (es ! (p mod ?n)))) \<and>
                 (\<forall>key. key \<noteq> ''embedding'' \<longrightarrow>
                    map_of (outfile w' ! k) key = map_of (infile ! p) key)"
      apply (rule exI [of _ ts])
      apply (rule exI [of _ es])
      apply (intro conjI)
      apply (rule q(2) t(1) a t(2) t(3) q(3) r e o)+
      done
    with p(1) q(1)
    show "?ps ! k < length infile \<and> ?ps ! k div ?n < length ?rq \<and>
              (\<exists>ts es. ?rq ! (?ps ! k div ?n) = (ts, Inr es) \<and>
                 batch_texts (take ?n (drop (?ps ! k div ?n * ?n) infile)) = Inr ts \<and>
                 (\<exists>c. model c ts = Inr es) \<and>
                 ?ps ! k mod ?n < length ts \<and>
                 map_of (infile ! (?ps ! k)) ''text'' = Some (ts ! (?ps ! k mod ?n)) \<and>
                 ?ps ! k mod ?n < length es \<and>
                 outfile w' ! k = set_embedding (es ! (?ps ! k mod ?n)) (infile ! (?ps ! k)) \<and>
                 map_of (outfile w' ! k) ''embedding'' = Some (JArr (map JNum (es ! (?ps ! k mod ?n)))) \<and>
                 (\<forall>key. key \<noteq> ''embedding'' \<longrightarrow>
                    map_of (outfile w' ! k) key = map_of (infile ! (?ps ! k)) key))"
      unfolding p_def by (intro conjI)
  qed
  with s l show ?thesis by (intro exI [of _ ?ps] conjI refl)
qed

text \<open>
  Seven records with batch size 3 and a service that fails on the second batch: the
  output holds the records \<open>a\<close>, \<open>b\<close>, \<open>c\<close> and \<open>g\<close> in this order, each with
  the vector at its index in the answer to its own request.
\<close>

theorem output_keeps_input_order_witness:
  "outfile (snd (generate_embeddings indexed_model 3 seven_records)) =
     [set_embedding [0, 0] (seven_records ! 0), set_embedding [0, 1] (seven_records ! 1),
      set_embedding [0, 2] (seven_records ! 2), set_embedding [6, 0] (seven_records ! 6)] \<and>
   map (\<lambda>r. map_of r ''text'') (outfile (snd (generate_embeddings indexed_model 3 seven_records))) =
     [Some (JStr ''a''), Some (JStr ''b''), Some (JStr ''c''), Some (JStr ''g'')] \<and>
   map (\<lambda>r. map_of r ''embedding'') (outfile (snd (generate_embeddings indexed_model 3 seven_records))) =
     [Some (JArr [JNum 0, JNum 0]), Some (JArr [JNum 0, JNum 1]),
      Some (JArr [JNum 0, JNum 2]), Some (JArr [JNum 6, JNum 0])] \<and>
   indexed_model 0 (map JStr [''a'', ''b'', ''c'']) = Inr [[0, 0], [0, 1], [0, 2]] \<and>
   indexed_model 6 (map JStr [''g'']) = Inr [[6, 0]] \<and>
   (\<exists>es. snd (requests (snd (generate_embeddings indexed_model 3 seven_records)) ! 0) = Inr es \<and>
         map_of (outfile (snd (generate_embeddings indexed_model 3 seven_records)) ! 1) ''embedding'' =
           Some (JArr (map JNum (es ! 1)))) \<and>
   (\<exists>es. snd (requests (snd (generate_embeddings indexed_model 3 seven_records)) ! 2) = Inr es \<and>
         map_of (outfile (snd (generate_embeddings indexed_model 3 seven_records)) ! 3) ''embedding'' =
           Some (JArr (map JNum (es ! 0))))"
proof -
  let ?w = "snd (generate_embeddings indexed_model 3 seven_records)"
  have run: "generate_embeddings indexed_model 3 seven_records = (None, ?w)"
    by (simp add: indexed_run)
  have n: "nat (max 1 3) = 3" by simp
  from output_keeps_input_order [OF run] obtain ps where
    ps: "ps = filter (kept (requests ?w) (nat (max 1 3))) [0..<length seven_records]" and
    all: "\<forall>k<length ps.
              ps ! k < length seven_records \<and>
              ps ! k div nat (max 1 3) < length (requests ?w) \<and>
              (\<exists>ts es. requests ?w ! (ps ! k div nat (max 1 3)) = (ts, Inr es) \<and>
                 batch_texts (take (nat (max 1 3))
                   (drop (ps ! k div nat (max 1 3) * nat (max 1 3)) seven_records)) = Inr ts \<and>
                 (\<exists>c. indexed_model c ts = Inr es) \<and>
                 ps ! k mod nat (max 1 3) < length ts \<and>
                 map_of (seven_records ! (ps ! k)) ''text'' = Some (ts ! (ps ! k mod nat (max 1 3))) \<and>
                 ps ! k mod nat (max 1 3) < length es \<and>
                 outfile ?w ! k =
                   set_embedding (es ! (ps ! k mod nat (max 1 3))) (seven_records ! (ps ! k)) \<and>
                 map_of (outfile ?w ! k) ''embedding'' =
                   Some (JArr (map JNum (es ! (ps ! k mod nat (max 1 3))))) \<and>
                 (\<forall>key. key \<noteq> ''embedding'' \<longrightarrow>
                    map_of (outfile ?w ! k) key = map_of (seven_records ! (ps ! k)) key))"
    by (elim exE conjE)
  have ps4: "ps = [0, 1, 2, 6]" unfolding ps n by (rule indexed_positions)
  have l1: "1 < length ps" and l3: "3 < length ps" by (simp_all add: ps4)
  have i1: "ps ! 1 div nat (max 1 3) = 0" "ps ! 1 mod nat (max 1 3) = 1" by (simp_all add: ps4)
  have i3: "ps ! 3 div nat (max 1 3) = 2" "ps ! 3 mod nat (max 1 3) = 0" by (simp_all add: ps4)
  from all [THEN spec, of 1, THEN mp, OF l1] obtain ts1 es1 where
    r1: "requests ?w ! (ps ! 1 div nat (max 1 3)) = (ts1, Inr es1)" and
    e1: "map_of (outfile ?w ! 1) ''embedding'' =
           Some (JArr (map JNum (es1 ! (ps ! 1 mod nat (max 1 3)))))"
    by (elim exE conjE)
  from r1 have "snd (requests ?w ! 0) = Inr es1" by (simp only: i1 snd_conv)
  moreover from e1 have "map_of (outfile ?w ! 1) ''embedding'' = Some (JArr (map JNum (es1 ! 1)))"
    by (simp only: i1)
  ultimately have k1: "\<exists>es. snd (requests ?w ! 0) = Inr es \<and>
         map_of (outfile ?w ! 1) ''embedding'' = Some (JArr (map JNum (es ! 1)))"
    by (intro exI [of _ es1] conjI)
  from all [THEN spec, of 3, THEN mp, OF l3] obtain ts3 es3 where
    r3: "requests ?w ! (ps ! 3 div nat (max 1 3)) = (ts3, Inr es3)" and
    e3: "map_of (outfile ?w ! 3) ''embedding'' =
           Some (JArr (map JNum (es3 ! (ps ! 3 mod nat (max 1 3)))))"
    by (elim exE conjE)
  from r3 have "snd (requests ?w ! 2) = Inr es3" by (simp only: i3 snd_conv)
  moreover from e3 have "map_of (outfile ?w ! 3) ''embedding'' = Some (JArr (map JNum (es3 ! 0)))"
    by (simp only: i3)
  ultimately have k3: "\<exists>es. snd (requests ?w ! 2) = Inr es \<and>
         map_of (outfile ?w ! 3) ''embedding'' = Some (JArr (map JNum (es ! 0)))"
    by (intro exI [of _ es3] conjI)
  have out: "outfile ?w =
     [set_embedding [0, 0] (seven_records ! 0), set_embedding [0, 1] (seven_records ! 1),
      set_embedding [0, 2] (seven_records ! 2), set_embedding [6, 0] (seven_records ! 6)]"
    by (simp add: indexed_run)
  have texts: "map (\<lambda>r. map_of r ''text'') (outfile ?w) =
     [Some (JStr ''a''), Some (JStr ''b''), Some (JStr ''c''), Some (JStr ''g'')]"
    unfolding out by (simp add: seven_records_def chunk_with_metadata_def set_embedding_def)
  have embs: "map (\<lambda>r. map_of r ''embedding'') (outfile ?w) =
     [Some (JArr [JNum 0, JNum 0]), Some (JArr [JNum 0, JNum 1]),
      Some (JArr [JNum 0, JNum 2]), Some (JArr [JNum 6, JNum 0])]"
    unfolding out by (simp add: seven_records_def chunk_with_metadata_def set_embedding_def)
  have m0: "indexed_model 0 (map JStr [''a'', ''b'', ''c'']) = Inr [[0, 0], [0, 1], [0, 2]]"
    by (simp add: indexed_model_def upt_conv_Cons del: upt_Suc)
  have m6: "indexed_model 6 (map JStr [''g'']) = Inr [[6, 0]]"
    by (simp add: indexed_model_def)
  from out texts embs m0 m6 k1 k3 show ?thesis by (intro conjI)
qed

text \<open>
  C9. Every record of the output is a record of the input with the key \<open>embedding\<close>
  set: \<open>id\<close>, \<open>text\<close>, \<open>source\<close>, \<open>title\<close> and every other key keep their
  values, the keys are those of the input record and \<open>embedding\<close>, and a record that
  had no embedding is the input record followed by the new field.
\<close>

theorem written_record_keeps_fields:
  assumes run: "generate_embeddings model B infile = (res, w')"
      and r: "r \<in> set (outfile w')"
  shows "\<exists>item\<in>set infile. \<exists>vs.
           r = AList.update ''embedding'' (JArr (map JNum vs)) item \<and>
           map_of r ''id'' = map_of item ''id'' \<and>
           map_of r ''text'' = map_of item ''text'' \<and>
           map_of r ''source'' = map_of item ''source'' \<and>
           map_of r ''title'' = map_of item ''title'' \<and>
           (\<forall>k. k \<noteq> ''embedding'' \<longrightarrow> map_of r k = map_of item k) \<and>
           map_of r ''embedding'' = Some (JArr (map JNum vs)) \<and>
           fst ` set r = insert ''embedding'' (fst ` set item) \<and>
           (''embedding'' \<notin> fst ` set item \<longrightarrow> r = item @ [(''embedding'', JArr (map JNum vs))])"
proof -
  let ?n = "nat (max 1 B)"
  let ?rq = "requests w'"
  have "outfile w' = map (record_at ?rq ?n infile) (filter (kept ?rq ?n) [0..<length infile])"
    using run by (rule generate_embeddings_positions)
  with r have "r \<in> record_at ?rq ?n infile ` set (filter (kept ?rq ?n) [0..<length infile])"
    by simp
  then obtain p where p: "p < length infile" "r = record_at ?rq ?n infile p" by auto
  define vs where "vs = projr (snd (?rq ! (p div ?n))) ! (p mod ?n)"
  define item where "item = infile ! p"
  define v where "v = JArr (map JNum vs)"
  have eq: "r = AList.update ''embedding'' v item"
    using p(2) by (simp add: record_at_def set_embedding_def vs_def item_def v_def)
  have m: "map_of r = (map_of item)(''embedding'' \<mapsto> v)"
    unfolding eq by (rule update_conv')
  have mem: "item \<in> set infile" using p(1) by (simp add: item_def)
  have others: "\<forall>k. k \<noteq> ''embedding'' \<longrightarrow> map_of r k = map_of item k" by (simp add: m)
  have f1: "map_of r ''id'' = map_of item ''id''" by (simp add: m)
  have f2: "map_of r ''text'' = map_of item ''text''" by (simp add: m)
  have f3: "map_of r ''source'' = map_of item ''source''" by (simp add: m)
  have f4: "map_of r ''title'' = map_of item ''title''" by (simp add: m)
  have emb: "map_of r ''embedding'' = Some v" by (simp add: m)
  have keys: "fst ` set r = insert ''embedding'' (fst ` set item)"
    unfolding eq by (simp add: dom_update)
  have app: "''embedding'' \<notin> fst ` set item \<longrightarrow> r = item @ [(''embedding'', v)]"
    unfolding eq by (rule impI) (rule update_new_key)
  show ?thesis
    apply (rule bexI [OF _ mem])
    apply (rule exI [of _ vs])
    using eq f1 f2 f3 f4 others emb keys app unfolding v_def
    apply (intro conjI)
    apply assumption+
    done
qed

text \<open>The same run: the first record written.\<close>

theorem written_record_keeps_fields_witness:
  "set_embedding [1, 0] (hd seven_records) \<in>
     set (outfile (snd (generate_embeddings first_call_only 5 seven_records))) \<and>
   (\<exists>item\<in>set seven_records. \<exists>vs.
      set_embedding [1, 0] (hd seven_records) = AList.update ''embedding'' (JArr (map JNum vs)) item \<and>
      map_of (set_embedding [1, 0] (hd seven_records)) ''id'' = map_of item ''id'' \<and>
      map_of (set_embedding [1, 0] (hd seven_records)) ''text'' = map_of item ''text'' \<and>
      map_of (set_embedding [1, 0] (hd seven_records)) ''source'' = map_of item ''source'' \<and>
      map_of (set_embedding [1, 0] (hd seven_records)) ''title'' = map_of item ''title'' \<and>
      map_of (set_embedding [1, 0] (hd seven_records)) ''embedding'' = Some (JArr (map JNum vs)))"
proof -
  define r where "r = set_embedding [1, 0] (hd seven_records)"
  define w where "w = snd (generate_embeddings first_call_only 5 seven_records)"
  have run: "generate_embeddings first_call_only 5 seven_records = (None, w)"
    unfolding w_def by (simp only: seven_run snd_conv)
  have "outfile w = map (set_embedding [1, 0]) (take 5 seven_records)"
    unfolding w_def by (simp only: seven_run snd_conv) simp
  moreover have "hd seven_records \<in> set (take 5 seven_records)"
    by (simp add: seven_records_def)
  ultimately have mem: "r \<in> set (outfile w)" unfolding r_def by simp
  from written_record_keeps_fields [OF run mem] obtain item vs where
    i: "item \<in> set seven_records"
       "r = AList.update ''embedding'' (JArr (map JNum vs)) item"
       "map_of r ''id'' = map_of item ''id''"
       "map_of r ''text'' = map_of item ''text''"
       "map_of r ''source'' = map_of item ''source''"
       "map_of r ''title'' = map_of item ''title''"
       "map_of r ''embedding'' = Some (JArr (map JNum vs))"
    by (elim bexE exE conjE)
  have "\<exists>item\<in>set seven_records. \<exists>vs.
      r = AList.update ''embedding'' (JArr (map JNum vs)) item \<and>
      map_of r ''id'' = map_of item ''id'' \<and>
      map_of r ''text'' = map_of item ''text'' \<and>
      map_of r ''source'' = map_of item ''source'' \<and>
      map_of r ''title'' = map_of item ''title'' \<and>
      map_of r ''embedding'' = Some (JArr (map JNum vs))"
    apply (rule bexI [OF _ i(1)])
    apply (rule exI [of _ vs])
    apply (intro conjI)
    apply (rule i(2) i(3) i(4) i(5) i(6) i(7))+
    done
  with mem show ?thesis unfolding r_def w_def by (rule conjI)
qed

section \<open>The Indexer run twice\<close>

subsection \<open>Finding a resource by display name\<close>

lemma find_map_same:
  "(\<And>x. P (f x) = P x) \<Longrightarrow> List.find P (map f xs) = map_option f (List.find P xs)"
  by (induction xs) auto

lemma find_append_new:
  "List.find P xs = None \<Longrightarrow> P x \<Longrightarrow> List.find P (xs @ [x]) = Some x"
  by (induction xs) (auto split: if_splits)

lemma find_append_old:
  "List.find P xs = Some y \<Longrightarrow> List.find P (xs @ zs) = Some y"
  by (induction xs) (auto split: if_splits)

subsection \<open>create_and_deploy_index\<close>

text \<open>An index found by its display name and deployed is answered from its first deployment.\<close>

lemma short_circuit:
  "List.find (\<lambda>ix. index_display_name ix = INDEX_DISPLAY_NAME cfg) (indexes c) = Some ix \<Longrightarrow>
   deployed_indexes ix \<noteq> [] \<Longrightarrow>
   create_and_deploy_index cfg now gcs_uri c = (index_endpoint (hd (deployed_indexes ix)), c)"
  by (simp add: create_and_deploy_index_def)

lemma deploy_index_find:
  assumes "List.find (\<lambda>ix. index_display_name ix = n) (indexes c) = Some ix"
      and "deployed_indexes ix = []"
  shows "\<exists>ix'. List.find (\<lambda>ix. index_display_name ix = n)
                 (indexes (deploy_index c e (index_resource_name ix) d m lo hi)) = Some ix' \<and>
               deployed_indexes ix' = [\<lparr>deployed_index_id = d, index_endpoint = e\<rparr>]"
proof -
  let ?upd = "\<lambda>x. if index_resource_name x = index_resource_name ix
                    then x\<lparr>deployed_indexes := deployed_indexes x @
                           [\<lparr>deployed_index_id = d, index_endpoint = e\<rparr>]\<rparr>
                    else x"
  have "List.find (\<lambda>ix. index_display_name ix = n) (map ?upd (indexes c)) =
        map_option ?upd (List.find (\<lambda>ix. index_display_name ix = n) (indexes c))"
    by (rule find_map_same) simp
  then show ?thesis using assms by (simp add: deploy_index_def)
qed

lemma deploy_index_frame:
  "buckets (deploy_index c e i d m lo hi) = buckets c \<and>
   blobs (deploy_index c e i d m lo hi) = blobs c \<and>
   oplog (deploy_index c e i d m lo hi) = oplog c @ [DeployIndex i e d]"
  by (simp add: deploy_index_def)

text \<open>
  After create_and_deploy_index the first index with the display name is deployed, and its
  first deployment is on the endpoint returned.
\<close>

lemma create_and_deploy_index_reaches:
  assumes "create_and_deploy_index cfg now gcs_uri c = (e, c')"
  shows "\<exists>ix. List.find (\<lambda>ix. index_display_name ix = INDEX_DISPLAY_NAME cfg) (indexes c') = Some ix \<and>
              deployed_indexes ix \<noteq> [] \<and> index_endpoint (hd (deployed_indexes ix)) = e"
proof -
  let ?P = "\<lambda>ix. index_display_name ix = INDEX_DISPLAY_NAME cfg"
  let ?Q = "\<lambda>ep. endpoint_display_name ep = ENDPOINT_DISPLAY_NAME cfg"
  let ?d = "''deployed_'' @ filter (\<lambda>ch. ch \<noteq> CHR ''_'') (INDEX_DISPLAY_NAME cfg) @ ''_'' @ str_nat now"
  show ?thesis
  proof (cases "List.find ?P (indexes c)")
    case (Some ix)
    show ?thesis
    proof (cases "deployed_indexes ix = []")
      case False
      from short_circuit [OF Some False] assms Some False show ?thesis by simp
    next
      case True
      obtain ep c2 where ep: "(case List.find ?Q (endpoints c) of
                    Some ep \<Rightarrow> (ep, c)
                  | None \<Rightarrow> create_endpoint c (ENDPOINT_DISPLAY_NAME cfg) True) = (ep, c2)"
        by (cases "(case List.find ?Q (endpoints c) of
                    Some ep \<Rightarrow> (ep, c)
                  | None \<Rightarrow> create_endpoint c (ENDPOINT_DISPLAY_NAME cfg) True)")
      then have ix2: "indexes c2 = indexes c"
        by (auto simp: create_endpoint_def Let_def split: option.splits)
      from assms Some True ep have res: "e = endpoint_resource_name ep"
         "c' = deploy_index c2 (endpoint_resource_name ep) (index_resource_name ix) ?d ''n1-standard-16'' 1 2"
        by (auto simp: create_and_deploy_index_def)
      from Some ix2 have "List.find ?P (indexes c2) = Some ix" by simp
      from deploy_index_find [OF this True, of "endpoint_resource_name ep" ?d "''n1-standard-16''" 1 2]
      show ?thesis unfolding res by auto
    qed
  next
    case None
    obtain ix c1 where ix: "create_tree_ah_index c (INDEX_DISPLAY_NAME cfg) gcs_uri
                              (EMBEDDING_DIMENSIONS cfg) 150 ''DOT_PRODUCT_DISTANCE'' = (ix, c1)"
      by (cases "create_tree_ah_index c (INDEX_DISPLAY_NAME cfg) gcs_uri
                              (EMBEDDING_DIMENSIONS cfg) 150 ''DOT_PRODUCT_DISTANCE''")
    then have new: "indexes c1 = indexes c @ [ix]" "index_display_name ix = INDEX_DISPLAY_NAME cfg"
       "deployed_indexes ix = []"
      by (auto simp: create_tree_ah_index_def Let_def)
    obtain ep c2 where ep: "(case List.find ?Q (endpoints c1) of
                    Some ep \<Rightarrow> (ep, c1)
                  | None \<Rightarrow> create_endpoint c1 (ENDPOINT_DISPLAY_NAME cfg) True) = (ep, c2)"
      by (cases "(case List.find ?Q (endpoints c1) of
                    Some ep \<Rightarrow> (ep, c1)
                  | None \<Rightarrow> create_endpoint c1 (ENDPOINT_DISPLAY_NAME cfg) True)")
    then have ix2: "indexes c2 = indexes c1"
      by (auto simp: create_endpoint_def Let_def split: option.splits)
    from assms None ix ep have res: "e = endpoint_resource_name ep"
       "c' = deploy_index c2 (endpoint_resource_name ep) (index_resource_name ix) ?d ''n1-standard-16'' 1 2"
      by (auto simp: create_and_deploy_index_def)
    have "List.find ?P (indexes c2) = Some ix"
      unfolding ix2 new(1) using None new(2) by (rule find_append_new)
    from deploy_index_find [OF this new(3), of "endpoint_resource_name ep" ?d "''n1-standard-16''" 1 2]
    show ?thesis unfolding res by auto
  qed
qed

lemma create_and_deploy_index_frame:
  assumes "create_and_deploy_index cfg now gcs_uri c = (e, c')"
  shows "buckets c' = buckets c \<and> blobs c' = blobs c"
  using assms
  by (auto simp: create_and_deploy_index_def create_tree_ah_index_def create_endpoint_def
        deploy_index_def Let_def split: option.splits if_splits)

lemma create_and_deploy_index_creations:
  assumes "create_and_deploy_index cfg now gcs_uri c = (e, c')"
      and "List.find (\<lambda>ix. index_display_name ix = INDEX_DISPLAY_NAME cfg) (indexes c) = None"
      and "List.find (\<lambda>ep. endpoint_display_name ep = ENDPOINT_DISPLAY_NAME cfg) (endpoints c) = None"
  shows "filter is_CreateIndex (oplog c') =
           filter is_CreateIndex (oplog c) @ [CreateIndex (INDEX_DISPLAY_NAME cfg)] \<and>
         filter is_CreateEndpoint (oplog c') =
           filter is_CreateEndpoint (oplog c) @ [CreateEndpoint (ENDPOINT_DISPLAY_NAME cfg)]"
  using assms
  by (auto simp: create_and_deploy_index_def create_tree_ah_index_def create_endpoint_def
        deploy_index_def Let_def split: option.splits if_splits)

lemma create_and_deploy_index_at_most_one:
  assumes "create_and_deploy_index cfg now gcs_uri c = (e, c')"
  shows "length (filter is_CreateIndex (oplog c')) \<le> Suc (length (filter is_CreateIndex (oplog c))) \<and>
         length (filter is_CreateEndpoint (oplog c')) \<le> Suc (length (filter is_CreateEndpoint (oplog c)))"
  using assms
  by (auto simp: create_and_deploy_index_def create_tree_ah_index_def create_endpoint_def
        deploy_index_def Let_def split: option.splits if_splits)

subsection \<open>upload_data_to_gcs\<close>

lemma upload_data_to_gcs_skips:
  assumes "bucket_name \<in> set (buckets c)"
      and "blob_exists c bucket_name (path_join destination_folder (basename source_file))"
  shows "upload_data_to_gcs cfg source_file file_content bucket_name destination_folder c =
           (''gs://'' @ bucket_name @ ''/'' @ path_join destination_folder (basename source_file), c)"
  using assms by (simp add: upload_data_to_gcs_def get_bucket_def)

lemma upload_data_to_gcs_after:
  assumes "upload_data_to_gcs cfg source_file file_content bucket_name destination_folder c = (uri, c')"
  shows "bucket_name \<in> set (buckets c')"
    and "blob_exists c' bucket_name (path_join destination_folder (basename source_file))"
    and "indexes c' = indexes c" and "endpoints c' = endpoints c"
    and "filter is_CreateIndex (oplog c') = filter is_CreateIndex (oplog c)"
    and "filter is_CreateEndpoint (oplog c') = filter is_CreateEndpoint (oplog c)"
    and "uri = ''gs://'' @ bucket_name @ ''/'' @ path_join destination_folder (basename source_file)"
  using assms
  by (auto simp: upload_data_to_gcs_def get_bucket_def create_bucket_def blob_exists_def
        upload_from_filename_def update_conv' Let_def split: if_splits)

subsection \<open>Two runs\<close>

lemma first_run:
  "indexer_main example_indexer_config 5 (Some ''records'') empty_cloud =
     (Some ''indexEndpoints/1'', cloud_after_first_run)"
  by (simp add: indexer_main_def upload_data_to_gcs_def create_and_deploy_index_def
        example_indexer_config_def empty_cloud_def cloud_after_first_run_def get_bucket_def
        create_bucket_def blob_exists_def upload_from_filename_def path_join_def basename_def
        create_tree_ah_index_def create_endpoint_def deploy_index_def str_nat.simps Let_def)

text \<open>
  C6. The index that create_and_deploy_index finds under INDEX_DISPLAY_NAME (the first
  one listed with that name), when it is deployed, is answered at once with the endpoint
  of its first deployment: the state of the services stays as it is, so no index and no
  endpoint is created and nothing is deployed. upload_data_to_gcs, when the bucket and the
  destination object exist, uploads nothing. So after a run of the Indexer from any state
  \<open>c0\<close>, a second run with the same configuration, at any time and whatever the file
  holds by then, returns the same endpoint and changes nothing; the first run creates at
  most one index and one endpoint, and exactly one of each, under the configured display
  names, when none with these names existed.
\<close>

theorem indexer_idempotent:
  assumes run: "indexer_main cfg now (Some file_content) c0 = (r, c1)"
  shows "(\<forall>c ix t uri.
            List.find (\<lambda>ix. index_display_name ix = INDEX_DISPLAY_NAME cfg) (indexes c) = Some ix \<and>
            deployed_indexes ix \<noteq> [] \<longrightarrow>
            create_and_deploy_index cfg t uri c = (index_endpoint (hd (deployed_indexes ix)), c)) \<and>
         (\<forall>c source_file new_content bucket_name folder.
            bucket_name \<in> set (buckets c) \<and>
            blob_exists c bucket_name (path_join folder (basename source_file)) \<longrightarrow>
            snd (upload_data_to_gcs cfg source_file new_content bucket_name folder c) = c) \<and>
         indexer_main cfg now' (Some file_content') c1 = (r, c1) \<and>
         length (filter is_CreateIndex (oplog c1)) \<le> Suc (length (filter is_CreateIndex (oplog c0))) \<and>
         length (filter is_CreateEndpoint (oplog c1)) \<le> Suc (length (filter is_CreateEndpoint (oplog c0))) \<and>
         (List.find (\<lambda>ix. index_display_name ix = INDEX_DISPLAY_NAME cfg) (indexes c0) = None \<and>
          List.find (\<lambda>ep. endpoint_display_name ep = ENDPOINT_DISPLAY_NAME cfg) (endpoints c0) = None \<longrightarrow>
            filter is_CreateIndex (oplog c1) =
              filter is_CreateIndex (oplog c0) @ [CreateIndex (INDEX_DISPLAY_NAME cfg)] \<and>
            filter is_CreateEndpoint (oplog c1) =
              filter is_CreateEndpoint (oplog c0) @ [CreateEndpoint (ENDPOINT_DISPLAY_NAME cfg)])"
proof -
  let ?P = "\<lambda>ix. index_display_name ix = INDEX_DISPLAY_NAME cfg"
  let ?blob = "path_join (GCS_UPLOAD_FOLDER cfg) (basename (EMBEDDED_DATA_FILE cfg))"
  let ?uri = "''gs://'' @ GCS_BUCKET_NAME cfg @ ''/'' @ ?blob"
  obtain uri cu where up: "upload_data_to_gcs cfg (EMBEDDED_DATA_FILE cfg) file_content
                              (GCS_BUCKET_NAME cfg) (GCS_UPLOAD_FOLDER cfg) c0 = (uri, cu)"
    by (cases "upload_data_to_gcs cfg (EMBEDDED_DATA_FILE cfg) file_content
                 (GCS_BUCKET_NAME cfg) (GCS_UPLOAD_FOLDER cfg) c0")
  obtain e where cd: "create_and_deploy_index cfg now uri cu = (e, c1)" and r: "r = Some e"
    using run up
    by (cases "create_and_deploy_index cfg now uri cu") (simp add: indexer_main_def)
  note u = upload_data_to_gcs_after [OF up]
  from create_and_deploy_index_frame [OF cd] u(1,2)
  have b1: "GCS_BUCKET_NAME cfg \<in> set (buckets c1)" "blob_exists c1 (GCS_BUCKET_NAME cfg) ?blob"
    by (simp_all add: blob_exists_def)
  from create_and_deploy_index_reaches [OF cd] obtain ix where
    ix: "List.find ?P (indexes c1) = Some ix" "deployed_indexes ix \<noteq> []"
        "index_endpoint (hd (deployed_indexes ix)) = e"
    by blast
  have second: "indexer_main cfg now' (Some file_content') c1 = (r, c1)"
    using upload_data_to_gcs_skips [OF b1, of cfg file_content']
          short_circuit [OF ix(1,2), of now' ?uri] ix(3) r
    by (simp add: indexer_main_def)
  have short: "\<forall>c ix t uri. List.find ?P (indexes c) = Some ix \<and> deployed_indexes ix \<noteq> [] \<longrightarrow>
            create_and_deploy_index cfg t uri c = (index_endpoint (hd (deployed_indexes ix)), c)"
    by (simp add: short_circuit)
  have skip: "\<forall>c source_file new_content bucket_name folder.
            bucket_name \<in> set (buckets c) \<and>
            blob_exists c bucket_name (path_join folder (basename source_file)) \<longrightarrow>
            snd (upload_data_to_gcs cfg source_file new_content bucket_name folder c) = c"
    by (simp add: upload_data_to_gcs_skips)
  have most: "length (filter is_CreateIndex (oplog c1)) \<le> Suc (length (filter is_CreateIndex (oplog c0)))"
     "length (filter is_CreateEndpoint (oplog c1)) \<le> Suc (length (filter is_CreateEndpoint (oplog c0)))"
    using create_and_deploy_index_at_most_one [OF cd] u(5,6) by simp_all
  have one: "List.find ?P (indexes c0) = None \<and>
          List.find (\<lambda>ep. endpoint_display_name ep = ENDPOINT_DISPLAY_NAME cfg) (endpoints c0) = None \<longrightarrow>
            filter is_CreateIndex (oplog c1) =
              filter is_CreateIndex (oplog c0) @ [CreateIndex (INDEX_DISPLAY_NAME cfg)] \<and>
            filter is_CreateEndpoint (oplog c1) =
              filter is_CreateEndpoint (oplog c0) @ [CreateEndpoint (ENDPOINT_DISPLAY_NAME cfg)]"
    using create_and_deploy_index_creations [OF cd] u(3,4,5,6) by simp
  from short skip second most one show ?thesis by (intro conjI)
qed

text \<open>
  From a project without resources: the first run creates the bucket, the object, the index
  and the endpoint and deploys; the second, later and on another file content, returns the
  same endpoint and leaves the state as it is.
\<close>

theorem indexer_idempotent_witness:
  "indexer_main example_indexer_config 9 (Some ''other records'') cloud_after_first_run =
     (Some ''indexEndpoints/1'', cloud_after_first_run) \<and>
   indexer_main example_indexer_config 5 (Some ''records'') empty_cloud =
     (Some ''indexEndpoints/1'', cloud_after_first_run) \<and>
   filter is_CreateIndex (oplog cloud_after_first_run) = [CreateIndex ''my_rag_index''] \<and>
   filter is_CreateEndpoint (oplog cloud_after_first_run) = [CreateEndpoint ''my_rag_endpoint'']"
proof -
  note t = indexer_idempotent [OF first_run, of 9 "''other records''"]
  from t have "indexer_main example_indexer_config 9 (Some ''other records'') cloud_after_first_run =
     (Some ''indexEndpoints/1'', cloud_after_first_run)"
    by blast
  moreover have "List.find (\<lambda>ix. index_display_name ix = INDEX_DISPLAY_NAME example_indexer_config)
       (indexes empty_cloud) = None \<and>
     List.find (\<lambda>ep. endpoint_display_name ep = ENDPOINT_DISPLAY_NAME example_indexer_config)
       (endpoints empty_cloud) = None"
    by (simp add: empty_cloud_def)
  with t have "filter is_CreateIndex (oplog cloud_after_first_run) =
              filter is_CreateIndex (oplog empty_cloud) @ [CreateIndex (INDEX_DISPLAY_NAME example_indexer_config)] \<and>
            filter is_CreateEndpoint (oplog cloud_after_first_run) =
              filter is_CreateEndpoint (oplog empty_cloud) @ [CreateEndpoint (ENDPOINT_DISPLAY_NAME example_indexer_config)]"
    by blast
  then have "filter is_CreateIndex (oplog cloud_after_first_run) = [CreateIndex ''my_rag_index''] \<and>
   filter is_CreateEndpoint (oplog cloud_after_first_run) = [CreateEndpoint ''my_rag_endpoint'']"
    by (simp add: empty_cloud_def example_indexer_config_def)
  ultimately show ?thesis using first_run by simp
qed

section \<open>The answer of the retrieval tool\<close>





end
